theory Spec2Isabelle
  imports Complex_Main
begin

section \<open>Data model of \<open>streaming_code_generator.py\<close>\<close>

text \<open>
  The module streams a chat completion chunk by chunk to a callback, keeps progress
  statistics in \<open>self.stats\<close>, and retries a failed attempt after an exponential backoff.
  The embedding follows the source region by region. What the Python does beyond
  returning a value is made explicit:
  \<^item> every exception is a value of type \<open>exc\<close>, and a function that can raise returns a sum
    (\<open>Inl\<close> the exception);
  \<^item> the instance attribute \<open>self.stats\<close> is a field of the explicit state, read afresh at
    every access as the source does;
  \<^item> every effect on the outside (callbacks, log records, requests, sleeps) and every write
    to \<open>self.stats\<close> is appended to a trace, in program order;
  \<^item> what the outside answers (the result of opening the stream, the stream's elements,
    whether the task is cancelled, the clock) is an explicit parameter.
  Strings are lists of characters; a character stands for a code point below 256.
\<close>

datatype StreamStatus = INITIALIZING | PROCESSING | COMPLETED | ERROR

record StreamStats =
  start_time :: real
  chunks_processed :: int
  total_tokens :: int
  status :: StreamStatus

text \<open>The dataclass constructor \<open>StreamStats(start_time=t)\<close> with its field defaults.\<close>

definition new_StreamStats :: "real \<Rightarrow> StreamStats" where
  "new_StreamStats t =
     \<lparr>start_time = t, chunks_processed = 0, total_tokens = 0, status = INITIALIZING\<rparr>"

text \<open>
  Exceptions that travel through \<open>handle_stream\<close> and \<open>generate_code_with_explanation\<close>.
  \<open>Exception m\<close> is any instance of a subclass of \<open>Exception\<close> raised by a collaborator (the
  client, the stream, a callback) whose \<open>str\<close> is \<open>m\<close>. \<open>CancelledError\<close> derives from
  \<open>BaseException\<close> (Python 3.8 and later), so \<open>except Exception\<close> does not catch it.
\<close>

datatype exc =
    CancelledError
  | Exception string
  | StreamProcessError string
  | APIError string

fun is_Exception :: "exc \<Rightarrow> bool" where
  "is_Exception CancelledError = False"
| "is_Exception (Exception m) = True"
| "is_Exception (StreamProcessError m) = True"
| "is_Exception (APIError m) = True"

fun str_exc :: "exc \<Rightarrow> string" where
  "str_exc CancelledError = []"
| "str_exc (Exception m) = m"
| "str_exc (StreamProcessError m) = m"
| "str_exc (APIError m) = m"

subsection \<open>Raw chunks\<close>

text \<open>
  A chunk is duck-typed: \<open>format_chunk\<close> reads \<open>chunk.choices[0].delta\<close> and then the
  attribute \<open>content\<close>. Each attribute may be absent (\<open>None\<close> of the option type), \<open>choices\<close>
  may be the Python value \<open>None\<close> or a list, \<open>delta\<close> may be the Python value \<open>None\<close>, and
  \<open>content\<close>, when present, is \<open>None\<close> or a string (the declared type of the field).
\<close>

datatype py_content = ContentNone | ContentStr string

datatype py_delta = DeltaNone | Delta "py_content option"

datatype py_choice = Choice "py_delta option"

datatype py_choices = ChoicesNone | Choices "py_choice list"

datatype py_chunk = Chunk "py_choices option"

text \<open>What the interpreter raises on a failed access; the argument is the attribute's name.\<close>

datatype lookup_error = AttributeError string | IndexError | TypeError

fun get_choices :: "py_chunk \<Rightarrow> lookup_error + py_choices" where
  "get_choices (Chunk None) = Inl (AttributeError ''choices'')"
| "get_choices (Chunk (Some cs)) = Inr cs"

fun subscript0 :: "py_choices \<Rightarrow> lookup_error + py_choice" where
  "subscript0 ChoicesNone = Inl TypeError"
| "subscript0 (Choices []) = Inl IndexError"
| "subscript0 (Choices (c # cs)) = Inr c"

fun get_delta :: "py_choice \<Rightarrow> lookup_error + py_delta" where
  "get_delta (Choice None) = Inl (AttributeError ''delta'')"
| "get_delta (Choice (Some d)) = Inr d"

fun hasattr_content :: "py_delta \<Rightarrow> bool" where
  "hasattr_content DeltaNone = False"
| "hasattr_content (Delta None) = False"
| "hasattr_content (Delta (Some c)) = True"

fun get_content :: "py_delta \<Rightarrow> lookup_error + py_content" where
  "get_content DeltaNone = Inl (AttributeError ''content'')"
| "get_content (Delta None) = Inl (AttributeError ''content'')"
| "get_content (Delta (Some c)) = Inr c"

text \<open>The expression \<open>content or ""\<close>: \<open>None\<close> and the empty string are falsy.\<close>

fun or_empty :: "py_content \<Rightarrow> string" where
  "or_empty ContentNone = []"
| "or_empty (ContentStr s) = (if s = [] then [] else s)"

text \<open>The path \<open>chunk.choices[0].delta\<close>, evaluated left to right.\<close>

definition first_delta :: "py_chunk \<Rightarrow> lookup_error + py_delta" where
  "first_delta chunk =
     (case get_choices chunk of
        Inl e \<Rightarrow> Inl e
      | Inr cs \<Rightarrow>
          (case subscript0 cs of
             Inl e \<Rightarrow> Inl e
           | Inr c \<Rightarrow> get_delta c))"

text \<open>
  The body of the \<open>try\<close> in \<open>format_chunk\<close> (lines 216 to 218). \<open>Inr (Some s)\<close> is the
  \<open>return\<close> of line 218, \<open>Inr None\<close> is falling through the \<open>if\<close>, \<open>Inl e\<close> is a raise.
  Line 218 evaluates the path a second time.
\<close>

definition format_chunk_try :: "py_chunk \<Rightarrow> lookup_error + string option" where
  "format_chunk_try chunk =
     (case first_delta chunk of
        Inl e \<Rightarrow> Inl e
      | Inr d \<Rightarrow>
          if hasattr_content d then
            (case first_delta chunk of
               Inl e \<Rightarrow> Inl e
             | Inr d' \<Rightarrow>
                 (case get_content d' of
                    Inl e \<Rightarrow> Inl e
                  | Inr c \<Rightarrow> Inr (Some (or_empty c))))
          else Inr None)"

text \<open>
  \<open>format_chunk\<close> (lines 200 to 226). Each of the three lookup failures is a subclass of
  \<open>Exception\<close>, so the handler of line 221 catches it, logs a warning and falls through
  to the \<open>return ""\<close> of line 226.
\<close>

definition format_chunk :: "py_chunk \<Rightarrow> string" where
  "format_chunk chunk =
     (case format_chunk_try chunk of
        Inl e \<Rightarrow> []
      | Inr None \<Rightarrow> []
      | Inr (Some s) \<Rightarrow> s)"

text \<open>The failure that line 223 logs as a warning, if any.\<close>

definition format_chunk_warning :: "py_chunk \<Rightarrow> lookup_error option" where
  "format_chunk_warning chunk =
     (case format_chunk_try chunk of Inl e \<Rightarrow> Some e | Inr r \<Rightarrow> None)"

subsection \<open>Strings: \<open>str.split()\<close> and \<open>str(int)\<close>\<close>

text \<open>
  \<open>str.split()\<close> with no argument splits at runs of whitespace and yields no empty word.
  The whitespace code points below 256 are 9 to 13, 28 to 32, 0x85 and 0xA0.
\<close>

definition isspace :: "char \<Rightarrow> bool" where
  "isspace c \<longleftrightarrow>
     c \<in> {CHR 0x09, CHR 0x0A, CHR 0x0B, CHR 0x0C, CHR 0x0D, CHR 0x1C, CHR 0x1D, CHR 0x1E,
          CHR 0x1F, CHR 0x20, CHR 0x85, CHR 0xA0}"

fun split_from :: "string \<Rightarrow> string \<Rightarrow> string list" where
  "split_from w [] = (if w = [] then [] else [w])"
| "split_from w (c # cs) =
     (if isspace c then (if w = [] then [] else [w]) @ split_from [] cs
      else split_from (w @ [c]) cs)"

definition py_split :: "string \<Rightarrow> string list" where
  "py_split s = split_from [] s"

text \<open>\<open>str(n)\<close> for an integer: decimal digits, a minus sign for a negative number.\<close>

definition digit :: "nat \<Rightarrow> char" where
  "digit d = ''0123456789'' ! d"

fun str_nat :: "nat \<Rightarrow> string" where
  "str_nat n = (if n < 10 then [digit n] else str_nat (n div 10) @ [digit (n mod 10)])"

declare str_nat.simps [simp del]

definition str_int :: "int \<Rightarrow> string" where
  "str_int i = (if i < 0 then CHR ''-'' # str_nat (nat (- i)) else str_nat (nat i))"

section \<open>The generator's state and its collaborators\<close>

text \<open>The configuration that \<open>__init__\<close> stores (lines 58 to 61).\<close>

record config =
  api_key :: string
  model :: string
  timeout :: real
  chunk_size :: int

text \<open>The keyword arguments of \<open>self.client.chat.completions.create\<close> (lines 92 to 101).\<close>

record request =
  req_model :: string
  req_messages :: "(string \<times> string) list"
  req_stream :: bool
  req_timeout :: real

definition system_content :: string where
  "system_content = ''You are an expert code developer. Your task is to generate  codes and provide clear explanations of the code in real-time. Ensure that the code you produce is efficient and follows best practices. The output should be structured and easy to understand, suitable for both beginners and experienced developers.''"

definition make_request :: "config \<Rightarrow> string \<Rightarrow> request" where
  "make_request cfg p =
     \<lparr>req_model = model cfg,
      req_messages = [(''system'', system_content), (''user'', p)],
      req_stream = True,
      req_timeout = timeout cfg\<rparr>"

text \<open>
  The trace. \<open>NewStats\<close> is the assignment of line 83 and \<open>SetStats\<close> a write to a field of
  \<open>self.stats\<close>, each with the value after the write; the other events are the effects a
  caller or a test double can observe. A format warning carries the failure that was
  caught, an attempt's error record carries the text logged at line 121.
\<close>

datatype event =
    NewStats StreamStats
  | SetStats StreamStats
  | Create request
  | OnChunk string
  | OnProgress StreamStats
  | WarnFormat lookup_error
  | WarnCancelled
  | LogError string
  | YieldSleep
  | Backoff int

text \<open>
  The state of a generator during a call. \<open>__init__\<close> sets \<open>self.stats\<close> to \<open>None\<close> (line 62)
  and line 83 binds it before anything reads it, so the functions below are embedded
  as they run inside \<open>generate_code_with_explanation\<close>, where \<open>self.stats\<close> names a
  \<open>StreamStats\<close>; what the field holds before the first call is never read.
\<close>

record state =
  self_stats :: StreamStats
  trace :: "event list"

definition emit :: "event \<Rightarrow> state \<Rightarrow> state" where
  "emit ev g = g\<lparr>trace := trace g @ [ev]\<rparr>"

text \<open>\<open>self.stats = s\<close>: the attribute is bound to a new object.\<close>

definition assign_stats :: "StreamStats \<Rightarrow> state \<Rightarrow> state" where
  "assign_stats s g = g\<lparr>self_stats := s, trace := trace g @ [NewStats s]\<rparr>"

text \<open>A write to a field of the object that \<open>self.stats\<close> names at that moment.\<close>

definition mutate :: "(StreamStats \<Rightarrow> StreamStats) \<Rightarrow> state \<Rightarrow> state" where
  "mutate f g =
     g\<lparr>self_stats := f (self_stats g), trace := trace g @ [SetStats (f (self_stats g))]\<rparr>"

definition set_status :: "StreamStatus \<Rightarrow> state \<Rightarrow> state" where
  "set_status st g = mutate (\<lambda>s. s\<lparr>status := st\<rparr>) g"

text \<open>
  The arguments of one call of \<open>generate_code_with_explanation\<close>. A callback returns
  \<open>None\<close> when it returns normally and \<open>Some e\<close> when it raises \<open>e\<close>; the progress callback is
  optional. The callbacks only read the statistics they are handed.
\<close>

record call =
  prompt :: string
  callback :: "string \<Rightarrow> exc option"
  max_retries :: int
  progress_callback :: "(StreamStats \<Rightarrow> exc option) option"

text \<open>
  A stream is a Python iterator: advancing it yields a chunk, ends the iteration, or
  raises.
\<close>

datatype py_stream = StopIteration | Next py_chunk py_stream | Throw exc

fun stream_of :: "py_chunk list \<Rightarrow> py_stream" where
  "stream_of [] = StopIteration"
| "stream_of (x # xs) = Next x (stream_of xs)"

text \<open>
  What the outside answers during one attempt: the result of opening the stream, the
  answer of \<open>asyncio.current_task().cancelled()\<close> before the chunk with a given index, whether
  the task is cancelled while it sleeps at line 177 or at line 128 (\<open>asyncio.sleep\<close> then
  raises \<open>CancelledError\<close>), and the clock read at line 115. In asyncio \<open>Task.cancelled()\<close> is
  true only of a task that is done, so a task that runs the loop gets the answer
  \<open>False\<close>; a cancellation requested while the coroutine runs is raised at its next
  \<open>await\<close>.
\<close>

record attempt_env =
  create_result :: "exc + py_stream"
  cancelled_at :: "nat \<Rightarrow> bool"
  yield_cancelled :: bool
  backoff_cancelled :: bool
  clock_end :: real

record world =
  clock_start :: real
  attempt_envs :: "nat \<Rightarrow> attempt_env"

section \<open>\<open>handle_stream\<close>\<close>

text \<open>Lines 163 to 170: a non-empty fragment is counted, accumulated and delivered.\<close>

definition on_text :: "call \<Rightarrow> string \<Rightarrow> state \<Rightarrow> string \<Rightarrow> exc option \<times> state \<times> string" where
  "on_text c f g full =
     (let g1 = mutate (\<lambda>s. s\<lparr>chunks_processed := chunks_processed s + 1\<rparr>) g;
          g2 = mutate (\<lambda>s. s\<lparr>total_tokens := total_tokens s + int (length (py_split f))\<rparr>) g1;
          g3 = emit (OnChunk f) g2
      in (callback c f, g3, full @ f))"

text \<open>Lines 173 to 174 and 195 to 196: the progress callback, when one is supplied.\<close>

definition report_progress :: "call \<Rightarrow> state \<Rightarrow> exc option \<times> state" where
  "report_progress c g =
     (case progress_callback c of
        None \<Rightarrow> (None, g)
      | Some p \<Rightarrow> (p (self_stats g), emit (OnProgress (self_stats g)) g))"

definition log_format_warning :: "py_chunk \<Rightarrow> state \<Rightarrow> state" where
  "log_format_warning chunk g =
     (case format_chunk_warning chunk of None \<Rightarrow> g | Some e \<Rightarrow> emit (WarnFormat e) g)"

text \<open>Lines 159 to 174: the loop body after the cancellation check.\<close>

definition process_chunk ::
  "call \<Rightarrow> py_chunk \<Rightarrow> state \<Rightarrow> string \<Rightarrow> exc option \<times> state \<times> string" where
  "process_chunk c chunk g full =
     (let g1 = log_format_warning chunk g;
          formatted_chunk = format_chunk chunk
      in case (if formatted_chunk \<noteq> [] then on_text c formatted_chunk g1 full
               else (None, g1, full)) of
           (Some e, g2, full2) \<Rightarrow> (Some e, g2, full2)
         | (None, g2, full2) \<Rightarrow>
             (case report_progress c g2 of (r, g3) \<Rightarrow> (r, g3, full2)))"

text \<open>
  Lines 152 to 174: the \<open>for\<close> loop. The result is the exception that left the loop, if
  any, with the state and the accumulator at that moment. The index counts the chunks
  consumed before.
\<close>

fun stream_loop ::
  "call \<Rightarrow> (nat \<Rightarrow> bool) \<Rightarrow> nat \<Rightarrow> py_stream \<Rightarrow> state \<Rightarrow> string \<Rightarrow> exc option \<times> state \<times> string" where
  "stream_loop c cancelled i StopIteration g full = (None, g, full)"
| "stream_loop c cancelled i (Throw e) g full = (Some e, g, full)"
| "stream_loop c cancelled i (Next chunk rest) g full =
     (if cancelled i then (Some CancelledError, g, full)
      else
        (case process_chunk c chunk g full of
           (Some e, g1, full1) \<Rightarrow> (Some e, g1, full1)
         | (None, g1, full1) \<Rightarrow> stream_loop c cancelled (Suc i) rest g1 full1))"

text \<open>
  Lines 180 to 189: the handlers of the \<open>try\<close>. A cancellation is logged and raised again;
  any other \<open>Exception\<close> is replaced by a \<open>StreamProcessError\<close>.
\<close>

definition handle_stream_except :: "exc \<Rightarrow> state \<Rightarrow> exc \<times> state" where
  "handle_stream_except e g =
     (if e = CancelledError then (CancelledError, emit WarnCancelled g)
      else if is_Exception e then
        (StreamProcessError (''Error processing stream: '' @ str_exc e), g)
      else (e, g))"

text \<open>
  Lines 148 to 177, up to the \<open>await\<close> of line 177 where the coroutine is suspended:
  \<open>Inl e\<close> when \<open>handle_stream\<close> has raised \<open>e\<close> before, \<open>Inr full\<close> when it sleeps with the
  accumulated text \<open>full\<close>.
\<close>

definition handle_stream_to_yield ::
  "call \<Rightarrow> attempt_env \<Rightarrow> py_stream \<Rightarrow> state \<Rightarrow> (exc + string) \<times> state" where
  "handle_stream_to_yield c ae stream g =
     (case stream_loop c (cancelled_at ae) 0 stream g [] of
        (Some e, g1, full) \<Rightarrow>
          (case handle_stream_except e g1 of (e', g2) \<Rightarrow> (Inl e', g2))
      | (None, g1, full) \<Rightarrow> (Inr full, emit YieldSleep g1))"

text \<open>
  Lines 177 to 198, from the moment the sleep of line 177 ends: either it raises the
  cancellation (still inside the \<open>try\<close>), or the status is set, the progress callback is
  called once more (outside the \<open>try\<close>) and the text is returned.
\<close>

definition handle_stream_from_yield ::
  "call \<Rightarrow> bool \<Rightarrow> string \<Rightarrow> state \<Rightarrow> (exc + string) \<times> state" where
  "handle_stream_from_yield c cancelled full g =
     (if cancelled then
        (case handle_stream_except CancelledError g of (e', g1) \<Rightarrow> (Inl e', g1))
      else
        (let g1 = set_status COMPLETED g
         in case report_progress c g1 of
              (Some e, g2) \<Rightarrow> (Inl e, g2)
            | (None, g2) \<Rightarrow> (Inr full, g2)))"

definition handle_stream ::
  "call \<Rightarrow> attempt_env \<Rightarrow> py_stream \<Rightarrow> state \<Rightarrow> (exc + string) \<times> state" where
  "handle_stream c ae stream g =
     (case handle_stream_to_yield c ae stream g of
        (Inl e, g1) \<Rightarrow> (Inl e, g1)
      | (Inr full, g1) \<Rightarrow> handle_stream_from_yield c (yield_cancelled ae) full g1)"

section \<open>\<open>generate_code_with_explanation\<close>\<close>

text \<open>
  The dictionary returned at lines 112 to 116, with its keys \<open>text\<close>, \<open>stats\<close> and
  \<open>completion_time\<close>. The entry \<open>stats\<close> is a reference to the object that \<open>self.stats\<close> names
  at that moment; the record holds the value read through it when the call returns.
\<close>

record session_result =
  res_text :: string
  res_stats :: StreamStats
  res_completion_time :: real

text \<open>
  How a call ends: it raises, or it returns. \<open>Returned None\<close> is the Python value \<open>None\<close>
  of a call that falls off the end of the \<open>for\<close> loop.
\<close>

datatype outcome = Raised exc | Returned "session_result option"

text \<open>
  Lines 89 to 108, up to the \<open>await\<close> inside \<open>handle_stream\<close>: the status is set, the
  stream is opened (which may raise) and consumed.
\<close>

definition attempt_to_yield ::
  "call \<Rightarrow> config \<Rightarrow> attempt_env \<Rightarrow> state \<Rightarrow> (exc + string) \<times> state" where
  "attempt_to_yield c cfg ae g =
     (let g1 = set_status PROCESSING g;
          g2 = emit (Create (make_request cfg (prompt c))) g1
      in case create_result ae of
           Inl e \<Rightarrow> (Inl e, g2)
         | Inr stream \<Rightarrow> handle_stream_to_yield c ae stream g2)"

text \<open>Lines 111 to 116: the attempt has succeeded.\<close>

definition on_success :: "attempt_env \<Rightarrow> string \<Rightarrow> state \<Rightarrow> outcome \<times> state" where
  "on_success ae final_response g =
     (let g1 = set_status COMPLETED g
      in (Returned (Some \<lparr>res_text = final_response,
                           res_stats = self_stats g1,
                           res_completion_time = clock_end ae - start_time (self_stats g1)\<rparr>),
          g1))"

text \<open>
  Lines 118 to 128, up to the \<open>await\<close> of line 128: \<open>Some r\<close> when the call ends here (an
  exception that is no \<open>Exception\<close> passes through, the last attempt raises the
  \<open>APIError\<close>), \<open>None\<close> when the coroutine sleeps before the next attempt.
\<close>

definition on_failure :: "call \<Rightarrow> nat \<Rightarrow> exc \<Rightarrow> state \<Rightarrow> outcome option \<times> state" where
  "on_failure c attempt e g =
     (if \<not> is_Exception e then (Some (Raised e), g)
      else
        (let g1 = set_status ERROR g;
             g2 = emit (LogError (''Attempt '' @ str_int (int attempt + 1) @ '' failed: ''
                                   @ str_exc e)) g1
         in if int attempt = max_retries c - 1 then
              (Some (Raised (APIError (''Failed after '' @ str_int (max_retries c)
                                        @ '' attempts: '' @ str_exc e))), g2)
            else (None, emit (Backoff (min (2 ^ attempt) 10)) g2)))"

text \<open>
  What follows the \<open>try\<close> body of one attempt, up to the next \<open>await\<close> or the end of the
  call.
\<close>

definition after_try :: "call \<Rightarrow> attempt_env \<Rightarrow> nat \<Rightarrow> (exc + string) \<times> state \<Rightarrow> outcome option \<times> state" where
  "after_try c ae attempt r =
     (case r of
        (Inr final_response, g) \<Rightarrow>
          (case on_success ae final_response g of (out, g1) \<Rightarrow> (Some out, g1))
      | (Inl e, g) \<Rightarrow> on_failure c attempt e g)"

text \<open>
  Lines 89 to 108, the body of the \<open>try\<close> of one attempt, run without interruption by
  another task: \<open>Inl e\<close> when it raises \<open>e\<close>, \<open>Inr final_response\<close> when \<open>handle_stream\<close> returns.
\<close>

definition attempt_try ::
  "call \<Rightarrow> config \<Rightarrow> attempt_env \<Rightarrow> state \<Rightarrow> (exc + string) \<times> state" where
  "attempt_try c cfg ae g =
     (case attempt_to_yield c cfg ae g of
        (Inl e, g1) \<Rightarrow> (Inl e, g1)
      | (Inr full, g1) \<Rightarrow> handle_stream_from_yield c (yield_cancelled ae) full g1)"

text \<open>
  One iteration of the \<open>for\<close> loop of line 86, with the sleep of line 128: \<open>Some r\<close> when
  the call ends in this iteration, \<open>None\<close> when the loop goes on.
\<close>

definition attempt_step ::
  "call \<Rightarrow> config \<Rightarrow> attempt_env \<Rightarrow> nat \<Rightarrow> state \<Rightarrow> outcome option \<times> state" where
  "attempt_step c cfg ae attempt g =
     (case after_try c ae attempt (attempt_try c cfg ae g) of
        (Some out, g2) \<Rightarrow> (Some out, g2)
      | (None, g2) \<Rightarrow>
          if backoff_cancelled ae then (Some (Raised CancelledError), g2)
          else (None, g2))"

text \<open>The loop \<open>for attempt in range(max_retries)\<close>, from the iteration \<open>attempt\<close> on.\<close>

function attempts ::
  "call \<Rightarrow> config \<Rightarrow> (nat \<Rightarrow> attempt_env) \<Rightarrow> nat \<Rightarrow> state \<Rightarrow> outcome \<times> state" where
  "attempts c cfg envs attempt g =
     (if int attempt < max_retries c then
        (case attempt_step c cfg (envs attempt) attempt g of
           (Some out, g1) \<Rightarrow> (out, g1)
         | (None, g1) \<Rightarrow> attempts c cfg envs (Suc attempt) g1)
      else (Returned None, g))"
  by pat_completeness auto
termination
  by (relation "measure (\<lambda>(c, cfg, envs, attempt, g). nat (max_retries c - int attempt))") auto

declare attempts.simps [simp del]

definition generate_code_with_explanation ::
  "call \<Rightarrow> config \<Rightarrow> world \<Rightarrow> state \<Rightarrow> outcome \<times> state" where
  "generate_code_with_explanation c cfg w g =
     attempts c cfg (attempt_envs w) 0 (assign_stats (new_StreamStats (clock_start w)) g)"

section \<open>Calls that overlap on one generator\<close>

text \<open>
  \<open>generate_code_with_explanation\<close> is a coroutine. It gives the event loop the chance to
  run another task at its two \<open>await\<close> expressions only: the sleep of line 177 inside
  \<open>handle_stream\<close>, and the backoff sleep of line 128. A suspended call is the point where
  it sleeps with its local variables: the attempt, and at line 177 the text accumulated.
  The attribute \<open>self.stats\<close> is no local variable: it belongs to the generator, and two
  calls on one generator share the state.
\<close>

datatype task = AtYield nat string | AtBackoff nat | Done outcome

text \<open>From the outcome of the body of an attempt to the next suspension or the end.\<close>

definition finish_attempt ::
  "call \<Rightarrow> attempt_env \<Rightarrow> nat \<Rightarrow> (exc + string) \<times> state \<Rightarrow> task \<times> state" where
  "finish_attempt c ae attempt r =
     (case after_try c ae attempt r of
        (Some out, g) \<Rightarrow> (Done out, g)
      | (None, g) \<Rightarrow> (AtBackoff attempt, g))"

text \<open>From the head of the iteration \<open>attempt\<close> to the next suspension or the end.\<close>

definition begin_attempt ::
  "call \<Rightarrow> config \<Rightarrow> world \<Rightarrow> nat \<Rightarrow> state \<Rightarrow> task \<times> state" where
  "begin_attempt c cfg w attempt g =
     (case attempt_to_yield c cfg (attempt_envs w attempt) g of
        (Inl e, g1) \<Rightarrow> finish_attempt c (attempt_envs w attempt) attempt (Inl e, g1)
      | (Inr full, g1) \<Rightarrow> (AtYield attempt full, g1))"

text \<open>The call from line 83 to its first suspension.\<close>

definition start :: "call \<Rightarrow> config \<Rightarrow> world \<Rightarrow> state \<Rightarrow> task \<times> state" where
  "start c cfg w g =
     (let g0 = assign_stats (new_StreamStats (clock_start w)) g
      in if 0 < max_retries c then begin_attempt c cfg w 0 g0
         else (Done (Returned None), g0))"

text \<open>A suspended call is resumed in the state the generator has by then.\<close>

fun resume :: "call \<Rightarrow> config \<Rightarrow> world \<Rightarrow> task \<Rightarrow> state \<Rightarrow> task \<times> state" where
  "resume c cfg w (AtYield attempt full) g =
     finish_attempt c (attempt_envs w attempt) attempt
       (handle_stream_from_yield c (yield_cancelled (attempt_envs w attempt)) full g)"
| "resume c cfg w (AtBackoff attempt) g =
     (if backoff_cancelled (attempt_envs w attempt) then (Done (Raised CancelledError), g)
      else if int (Suc attempt) < max_retries c then begin_attempt c cfg w (Suc attempt) g
      else (Done (Returned None), g))"
| "resume c cfg w (Done out) g = (Done out, g)"

text \<open>A call that no other task interrupts: it is resumed until it ends.\<close>

function run_to_end :: "call \<Rightarrow> config \<Rightarrow> world \<Rightarrow> task \<Rightarrow> state \<Rightarrow> outcome \<times> state" where
  "run_to_end c cfg w (Done out) g = (out, g)"
| "run_to_end c cfg w (AtYield attempt full) g =
     (case resume c cfg w (AtYield attempt full) g of (t, g') \<Rightarrow> run_to_end c cfg w t g')"
| "run_to_end c cfg w (AtBackoff attempt) g =
     (case resume c cfg w (AtBackoff attempt) g of (t, g') \<Rightarrow> run_to_end c cfg w t g')"
  by pat_completeness auto
termination
  by (relation "measure (\<lambda>(c, cfg, w, t, g).
        case t of
          Done out \<Rightarrow> 0
        | AtYield attempt full \<Rightarrow> 2 * nat (max_retries c - int attempt) + 2
        | AtBackoff attempt \<Rightarrow> 2 * nat (max_retries c - int attempt) + 1)")
     (auto simp: finish_attempt_def begin_attempt_def
       split: prod.splits option.splits sum.splits if_splits)

section \<open>The states of a run\<close>

text \<open>
  The state in which the iteration \<open>k\<close> of the loop of line 86 starts, when the run that
  enters the loop in the state \<open>g0\<close> gets that far.
\<close>

primrec state_before_attempt ::
  "call \<Rightarrow> config \<Rightarrow> (nat \<Rightarrow> attempt_env) \<Rightarrow> state \<Rightarrow> nat \<Rightarrow> state option" where
  "state_before_attempt c cfg envs g0 0 = (if 0 < max_retries c then Some g0 else None)"
| "state_before_attempt c cfg envs g0 (Suc k) =
     (case state_before_attempt c cfg envs g0 k of
        None \<Rightarrow> None
      | Some g \<Rightarrow>
          (case attempt_step c cfg (envs k) k g of
             (Some out, g1) \<Rightarrow> None
           | (None, g1) \<Rightarrow> if int (Suc k) < max_retries c then Some g1 else None))"

text \<open>
  The attempt \<open>a\<close> of the run is retried: the run gets to it, its body raises an exception
  that line 118 catches, and it is not the last attempt allowed.
\<close>

definition retried ::
  "call \<Rightarrow> config \<Rightarrow> (nat \<Rightarrow> attempt_env) \<Rightarrow> state \<Rightarrow> nat \<Rightarrow> bool" where
  "retried c cfg envs g0 a =
     (case state_before_attempt c cfg envs g0 a of
        None \<Rightarrow> False
      | Some ga \<Rightarrow>
          (case attempt_try c cfg (envs a) ga of
             (Inl e, g1) \<Rightarrow> is_Exception e \<and> int a < max_retries c - 1
           | (Inr final_response, g1) \<Rightarrow> False))"

section \<open>Reading a trace\<close>

text \<open>
  Each projection keeps the events of one kind, in order. A property of a call is stated
  on the events the call appends to the trace it starts from.
\<close>

fun chunk_of :: "event \<Rightarrow> string list" where
  "chunk_of (OnChunk f) = [f]"
| "chunk_of ev = []"

definition delivered :: "event list \<Rightarrow> string list" where
  "delivered evs = concat (map chunk_of evs)"

fun progress_of :: "event \<Rightarrow> StreamStats list" where
  "progress_of (OnProgress s) = [s]"
| "progress_of ev = []"

definition progress_reports :: "event list \<Rightarrow> StreamStats list" where
  "progress_reports evs = concat (map progress_of evs)"

fun backoff_of :: "event \<Rightarrow> int list" where
  "backoff_of (Backoff d) = [d]"
| "backoff_of ev = []"

definition backoffs :: "event list \<Rightarrow> int list" where
  "backoffs evs = concat (map backoff_of evs)"

fun request_of :: "event \<Rightarrow> request list" where
  "request_of (Create r) = [r]"
| "request_of ev = []"

definition requests :: "event list \<Rightarrow> request list" where
  "requests evs = concat (map request_of evs)"

fun error_of :: "event \<Rightarrow> string list" where
  "error_of (LogError m) = [m]"
| "error_of ev = []"

definition error_logs :: "event list \<Rightarrow> string list" where
  "error_logs evs = concat (map error_of evs)"

fun write_of :: "event \<Rightarrow> StreamStats list" where
  "write_of (NewStats s) = [s]"
| "write_of (SetStats s) = [s]"
| "write_of ev = []"

definition writes :: "event list \<Rightarrow> StreamStats list" where
  "writes evs = concat (map write_of evs)"

fun created_of :: "event \<Rightarrow> StreamStats list" where
  "created_of (NewStats s) = [s]"
| "created_of ev = []"

definition created :: "event list \<Rightarrow> StreamStats list" where
  "created evs = concat (map created_of evs)"

text \<open>
  The pacing of a call: \<open>None\<close> for each stream opened, \<open>Some d\<close> for each backoff sleep of
  \<open>d\<close> seconds, in order.
\<close>

fun pace_of :: "event \<Rightarrow> int option list" where
  "pace_of (Create r) = [None]"
| "pace_of (Backoff d) = [Some d]"
| "pace_of ev = []"

definition pacing :: "event list \<Rightarrow> int option list" where
  "pacing evs = concat (map pace_of evs)"

text \<open>The fragments of a chunk sequence that \<open>handle_stream\<close> treats as text.\<close>

definition fragments :: "py_chunk list \<Rightarrow> string list" where
  "fragments cs = filter (\<lambda>f. f \<noteq> []) (map format_chunk cs)"

definition word_count :: "string \<Rightarrow> int" where
  "word_count f = int (length (py_split f))"

text \<open>
  The content found at the path \<open>choices[0].delta.content\<close> of a chunk, when the chunk has
  this path.
\<close>

fun content_path :: "py_chunk \<Rightarrow> py_content option" where
  "content_path (Chunk (Some (Choices (Choice (Some (Delta (Some c))) # cs)))) = Some c"
| "content_path chunk = None"

section \<open>The history of \<open>self.stats\<close>\<close>

text \<open>
  A write keeps what was accumulated: the start time stays, and neither counter
  decreases.
\<close>

definition accumulates :: "StreamStats \<Rightarrow> StreamStats \<Rightarrow> bool" where
  "accumulates s s' \<longleftrightarrow>
     start_time s' = start_time s
     \<and> chunks_processed s \<le> chunks_processed s'
     \<and> total_tokens s \<le> total_tokens s'"

text \<open>
  What two successive writes of one attempt do to the status: they keep \<open>PROCESSING\<close> or
  \<open>COMPLETED\<close>, or they move from \<open>PROCESSING\<close> to \<open>COMPLETED\<close>, from \<open>PROCESSING\<close> to \<open>ERROR\<close>, or
  from \<open>COMPLETED\<close> to \<open>ERROR\<close>. Nothing follows \<open>ERROR\<close> and nothing leads to \<open>INITIALIZING\<close>.
\<close>

fun status_step :: "StreamStatus \<Rightarrow> StreamStatus \<Rightarrow> bool" where
  "status_step PROCESSING PROCESSING = True"
| "status_step PROCESSING COMPLETED = True"
| "status_step PROCESSING ERROR = True"
| "status_step COMPLETED COMPLETED = True"
| "status_step COMPLETED ERROR = True"
| "status_step st st' = False"

text \<open>A write inside an attempt: it accumulates and the status makes one of these steps.\<close>

definition moves :: "StreamStats \<Rightarrow> StreamStats \<Rightarrow> bool" where
  "moves s s' \<longleftrightarrow> accumulates s s' \<and> status_step (status s) (status s')"

text \<open>
  The writes of one attempt: the first sets the status \<open>PROCESSING\<close>, and each later one
  makes one of these steps.
\<close>

definition attempt_block :: "StreamStats list \<Rightarrow> bool" where
  "attempt_block W \<longleftrightarrow>
     W \<noteq> [] \<and> status (hd W) = PROCESSING
     \<and> successively (\<lambda>s s'. status_step (status s) (status s')) W"

text \<open>
  Between two states of a run the writes form a chain: each is related to the one
  before, the first to the statistics of the first state, and the last is the
  statistics of the second state.
\<close>

definition history_step :: "(StreamStats \<Rightarrow> StreamStats \<Rightarrow> bool) \<Rightarrow> state \<Rightarrow> state \<Rightarrow> bool" where
  "history_step P g g' \<longleftrightarrow>
     (\<exists>W. writes (trace g') = writes (trace g) @ W
          \<and> successively P (self_stats g # W)
          \<and> self_stats g' = last (self_stats g # W))"

section \<open>Example inputs\<close>

text \<open>A chunk whose first choice's delta has the content \<open>s\<close>, as the tests build it.\<close>

definition text_chunk :: "string \<Rightarrow> py_chunk" where
  "text_chunk s = Chunk (Some (Choices [Choice (Some (Delta (Some (ContentStr s))))]))"

text \<open>Concrete collaborators, used where a property is instantiated.\<close>

definition example_config :: config where
  "example_config =
     \<lparr>api_key = ''sk-test'', model = ''gpt-3.5-turbo'', timeout = 60, chunk_size = 1024\<rparr>"

text \<open>A call whose callbacks return normally.\<close>

definition quiet_call :: "int \<Rightarrow> call" where
  "quiet_call n =
     \<lparr>prompt = ''add two numbers'', callback = (\<lambda>f. None), max_retries = n,
      progress_callback = Some (\<lambda>s. None)\<rparr>"

text \<open>An attempt in which opening the stream raises.\<close>

definition failing_env :: "string \<Rightarrow> attempt_env" where
  "failing_env m =
     \<lparr>create_result = Inl (Exception m), cancelled_at = (\<lambda>i. False),
      yield_cancelled = False, backoff_cancelled = False, clock_end = 0\<rparr>"

text \<open>An attempt in which the stream is opened and the task is never cancelled.\<close>

definition streaming_env :: "py_stream \<Rightarrow> attempt_env" where
  "streaming_env stream =
     \<lparr>create_result = Inr stream, cancelled_at = (\<lambda>i. False),
      yield_cancelled = False, backoff_cancelled = False, clock_end = 0\<rparr>"

definition idle_state :: state where
  "idle_state = \<lparr>self_stats = new_StreamStats 0, trace = []\<rparr>"

text \<open>
  An attempt of a task that is cancelled while the loop of \<open>handle_stream\<close> runs, after any
  number of chunks: each check of line 155 gets the answer \<open>False\<close>, and the sleep of line
  177, the next \<open>await\<close>, raises the cancellation.
\<close>

definition cancelled_in_loop_env :: "py_stream \<Rightarrow> attempt_env" where
  "cancelled_in_loop_env stream =
     \<lparr>create_result = Inr stream, cancelled_at = (\<lambda>k. False),
      yield_cancelled = True, backoff_cancelled = False, clock_end = 0\<rparr>"

text \<open>An attempt in which opening the stream raises and the backoff sleep is cancelled.\<close>

definition cancelled_in_backoff_env :: "string \<Rightarrow> attempt_env" where
  "cancelled_in_backoff_env m =
     \<lparr>create_result = Inl (Exception m), cancelled_at = (\<lambda>k. False),
      yield_cancelled = False, backoff_cancelled = True, clock_end = 0\<rparr>"

text \<open>The three chunks of the scenario in the specification.\<close>

definition scenario_chunks :: "py_chunk list" where
  "scenario_chunks = [text_chunk ''def add(a'', text_chunk ''Okay, c'', text_chunk ''... urn a+b'']"

text \<open>A stream that yields one chunk and then fails.\<close>

definition broken_stream :: py_stream where
  "broken_stream = Next (text_chunk ''a'') (Throw (Exception ''connection reset''))"

text \<open>A call whose chunk callback raises on the fragment \<open>boom\<close>.\<close>

definition fussy_call :: call where
  "fussy_call =
     \<lparr>prompt = ''add two numbers'',
      callback = (\<lambda>f. if f = ''boom'' then Some (Exception ''callback failed'') else None),
      max_retries = 3,
      progress_callback = None\<rparr>"

text \<open>
  A run of two attempts: the stream of the first fails after one chunk, the second
  delivers one chunk and ends.
\<close>

definition retry_world :: world where
  "retry_world =
     \<lparr>clock_start = 0,
      attempt_envs = (\<lambda>k. if k = 0 then streaming_env broken_stream
                           else streaming_env (stream_of [text_chunk ''b'']))\<rparr>"

text \<open>The statistics with which \<open>handle_stream\<close> is entered in the second of these attempts.\<close>

definition resumed_state :: state where
  "resumed_state =
     \<lparr>self_stats = \<lparr>start_time = 0, chunks_processed = 1, total_tokens = 1,
                     status = PROCESSING\<rparr>,
      trace = []\<rparr>"

text \<open>
  Two calls on one generator. The stream of the first yields two fragments of three
  words in all, the stream of the second one fragment of one word. The first call runs
  to its sleep of line 177, the second call starts and runs to the same sleep, then the
  first call is resumed.
\<close>

definition first_world :: world where
  "first_world =
     \<lparr>clock_start = 0,
      attempt_envs = (\<lambda>k. \<lparr>create_result = Inr (stream_of [text_chunk ''a b '', text_chunk ''c'']),
                             cancelled_at = (\<lambda>i. False), yield_cancelled = False,
                             backoff_cancelled = False, clock_end = 9\<rparr>)\<rparr>"

definition second_world :: world where
  "second_world =
     \<lparr>clock_start = 5,
      attempt_envs = (\<lambda>k. \<lparr>create_result = Inr (stream_of [text_chunk ''x'']),
                             cancelled_at = (\<lambda>i. False), yield_cancelled = False,
                             backoff_cancelled = False, clock_end = 10\<rparr>)\<rparr>"

definition first_call :: call where
  "first_call = (quiet_call 3)\<lparr>prompt := ''Write a function to calculate factorial''\<rparr>"

definition second_call :: call where
  "second_call = (quiet_call 3)\<lparr>prompt := ''Write a function to reverse a string''\<rparr>"

definition first_started :: "task \<times> state" where
  "first_started = start first_call example_config first_world idle_state"

definition second_started :: "task \<times> state" where
  "second_started = start second_call example_config second_world (snd first_started)"

definition first_resumed :: "task \<times> state" where
  "first_resumed =
     resume first_call example_config first_world (fst first_started) (snd second_started)"

definition second_resumed :: "task \<times> state" where
  "second_resumed =
     resume second_call example_config second_world (fst second_started) (snd first_resumed)"

text \<open>A call of two attempts whose progress callback raises once the status is \<open>COMPLETED\<close>.\<close>

definition late_failing_call :: call where
  "late_failing_call =
     \<lparr>prompt = ''add two numbers'',
      callback = (\<lambda>f. None),
      max_retries = 2,
      progress_callback =
        Some (\<lambda>s. if status s = COMPLETED then Some (Exception ''observer failed'') else None)\<rparr>"

section \<open>Basic facts\<close>

lemma trace_emit [simp]: "trace (emit ev g) = trace g @ [ev]"
  by (simp add: emit_def)

lemma self_stats_emit [simp]: "self_stats (emit ev g) = self_stats g"
  by (simp add: emit_def)

lemma trace_mutate [simp]: "trace (mutate f g) = trace g @ [SetStats (f (self_stats g))]"
  by (simp add: mutate_def)

lemma self_stats_mutate [simp]: "self_stats (mutate f g) = f (self_stats g)"
  by (simp add: mutate_def)

lemma trace_assign_stats [simp]: "trace (assign_stats s g) = trace g @ [NewStats s]"
  by (simp add: assign_stats_def)

lemma self_stats_assign_stats [simp]: "self_stats (assign_stats s g) = s"
  by (simp add: assign_stats_def)

lemma delivered_simps [simp]:
  "delivered [] = []"
  "delivered (ev # evs) = chunk_of ev @ delivered evs"
  "delivered (evs @ evs') = delivered evs @ delivered evs'"
  by (simp_all add: delivered_def)

lemma progress_reports_simps [simp]:
  "progress_reports [] = []"
  "progress_reports (ev # evs) = progress_of ev @ progress_reports evs"
  "progress_reports (evs @ evs') = progress_reports evs @ progress_reports evs'"
  by (simp_all add: progress_reports_def)

lemma backoffs_simps [simp]:
  "backoffs [] = []"
  "backoffs (ev # evs) = backoff_of ev @ backoffs evs"
  "backoffs (evs @ evs') = backoffs evs @ backoffs evs'"
  by (simp_all add: backoffs_def)

lemma requests_simps [simp]:
  "requests [] = []"
  "requests (ev # evs) = request_of ev @ requests evs"
  "requests (evs @ evs') = requests evs @ requests evs'"
  by (simp_all add: requests_def)

lemma error_logs_simps [simp]:
  "error_logs [] = []"
  "error_logs (ev # evs) = error_of ev @ error_logs evs"
  "error_logs (evs @ evs') = error_logs evs @ error_logs evs'"
  by (simp_all add: error_logs_def)

lemma writes_simps [simp]:
  "writes [] = []"
  "writes (ev # evs) = write_of ev @ writes evs"
  "writes (evs @ evs') = writes evs @ writes evs'"
  by (simp_all add: writes_def)

lemma created_simps [simp]:
  "created [] = []"
  "created (ev # evs) = created_of ev @ created evs"
  "created (evs @ evs') = created evs @ created evs'"
  by (simp_all add: created_def)

lemma pacing_simps [simp]:
  "pacing [] = []"
  "pacing (ev # evs) = pace_of ev @ pacing evs"
  "pacing (evs @ evs') = pacing evs @ pacing evs'"
  by (simp_all add: pacing_def)

section \<open>\<open>format_chunk\<close> is total\<close>

lemma format_chunk_content_path:
  "format_chunk chunk = (case content_path chunk of Some (ContentStr s) \<Rightarrow> s | _ \<Rightarrow> [])"
  by (cases chunk rule: content_path.cases)
     (simp_all add: format_chunk_def format_chunk_try_def first_delta_def
        split: py_content.splits)

text \<open>
  Claim C3. \<open>format_chunk\<close> never raises: whenever the body of its \<open>try\<close> raises, the
  handler logs that failure and the function returns the empty string. It returns the
  content found at \<open>choices[0].delta.content\<close> when that is a string, and the empty string
  for every chunk that lacks this path or whose content is \<open>None\<close> or empty.
\<close>

theorem format_chunk_never_raises:
  "(case format_chunk_try chunk of
      Inl e \<Rightarrow> format_chunk chunk = [] \<and> format_chunk_warning chunk = Some e
    | Inr r \<Rightarrow> format_chunk_warning chunk = None)
   \<and> format_chunk chunk = (case content_path chunk of Some (ContentStr s) \<Rightarrow> s | _ \<Rightarrow> [])"
  by (simp add: format_chunk_content_path [symmetric] format_chunk_def format_chunk_warning_def
      split: sum.splits)

section \<open>A call without attempts\<close>

text \<open>
  Claim C10. With \<open>max_retries\<close> zero or negative the loop body never runs: the call only
  assigns a fresh \<open>StreamStats\<close> (line 83), opens no stream, calls no callback, raises
  nothing and returns \<open>None\<close>.
\<close>

theorem generate_without_attempts:
  "max_retries c \<le> 0 \<Longrightarrow>
   generate_code_with_explanation c cfg w g =
     (Returned None,
      g\<lparr>self_stats := new_StreamStats (clock_start w),
        trace := trace g @ [NewStats (new_StreamStats (clock_start w))]\<rparr>)"
  by (simp add: generate_code_with_explanation_def attempts.simps assign_stats_def)

theorem generate_without_attempts_witness:
  "max_retries (quiet_call 0) \<le> 0 \<and>
   generate_code_with_explanation (quiet_call 0) example_config
       \<lparr>clock_start = 7, attempt_envs = (\<lambda>a. failing_env ''timeout'')\<rparr> idle_state =
     (Returned None,
      \<lparr>self_stats = new_StreamStats 7, trace = [NewStats (new_StreamStats 7)]\<rparr>)"
  using generate_without_attempts [of "quiet_call 0" example_config
      "\<lparr>clock_start = 7, attempt_envs = (\<lambda>a. failing_env ''timeout'')\<rparr>" idle_state]
  by (simp add: quiet_call_def idle_state_def)

section \<open>Which events a region appends\<close>

text \<open>
  Consuming a stream opens no stream, sleeps no backoff, logs no attempt error and binds
  no new \<open>StreamStats\<close>; the body of an attempt opens exactly one stream.
\<close>

lemma process_chunk_quiet:
  assumes "process_chunk c chunk g full = (r, g', full')"
  shows "pacing (trace g') = pacing (trace g) \<and> requests (trace g') = requests (trace g)
       \<and> backoffs (trace g') = backoffs (trace g) \<and> error_logs (trace g') = error_logs (trace g)
       \<and> created (trace g') = created (trace g)"
  using assms
  by (auto simp: process_chunk_def on_text_def report_progress_def log_format_warning_def Let_def
      split: if_splits option.splits prod.splits)

lemma stream_loop_quiet:
  assumes "stream_loop c cancelled i stream g full = (r, g', full')"
  shows "pacing (trace g') = pacing (trace g) \<and> requests (trace g') = requests (trace g)
       \<and> backoffs (trace g') = backoffs (trace g) \<and> error_logs (trace g') = error_logs (trace g)
       \<and> created (trace g') = created (trace g)"
  using assms
proof (induction stream arbitrary: i g full)
  case StopIteration
  then show ?case by simp
next
  case (Next chunk rest)
  show ?case
  proof (cases "cancelled i")
    case True
    with Next.prems show ?thesis by simp
  next
    case False
    obtain r1 g1 full1 where pc: "process_chunk c chunk g full = (r1, g1, full1)"
      by (cases "process_chunk c chunk g full") auto
    note q1 = process_chunk_quiet [OF pc]
    show ?thesis
    proof (cases r1)
      case None
      with Next.prems False pc
      have "stream_loop c cancelled (Suc i) rest g1 full1 = (r, g', full')" by simp
      from Next.IH [OF this] q1 show ?thesis by simp
    next
      case (Some e)
      with Next.prems False pc have "g' = g1" by simp
      with q1 show ?thesis by simp
    qed
  qed
next
  case (Throw e)
  then show ?case by simp
qed

lemma handle_stream_except_quiet:
  assumes "handle_stream_except e g = (e', g')"
  shows "pacing (trace g') = pacing (trace g) \<and> requests (trace g') = requests (trace g)
       \<and> backoffs (trace g') = backoffs (trace g) \<and> error_logs (trace g') = error_logs (trace g)
       \<and> created (trace g') = created (trace g)"
  using assms by (auto simp: handle_stream_except_def split: if_splits)

lemma handle_stream_to_yield_quiet:
  assumes "handle_stream_to_yield c ae stream g = (r, g')"
  shows "pacing (trace g') = pacing (trace g) \<and> requests (trace g') = requests (trace g)
       \<and> backoffs (trace g') = backoffs (trace g) \<and> error_logs (trace g') = error_logs (trace g)
       \<and> created (trace g') = created (trace g)"
proof -
  obtain r1 g1 full1 where sl: "stream_loop c (cancelled_at ae) 0 stream g [] = (r1, g1, full1)"
    by (cases "stream_loop c (cancelled_at ae) 0 stream g []") auto
  note q = stream_loop_quiet [OF sl]
  show ?thesis
  proof (cases r1)
    case None
    with assms sl have "g' = emit YieldSleep g1" by (simp add: handle_stream_to_yield_def)
    with q show ?thesis by simp
  next
    case (Some e)
    obtain e' g2 where ex: "handle_stream_except e g1 = (e', g2)"
      by (cases "handle_stream_except e g1") auto
    with assms sl Some have "g' = g2" by (simp add: handle_stream_to_yield_def)
    with q handle_stream_except_quiet [OF ex] show ?thesis by simp
  qed
qed

lemma handle_stream_from_yield_quiet:
  assumes "handle_stream_from_yield c cancelled full g = (r, g')"
  shows "pacing (trace g') = pacing (trace g) \<and> requests (trace g') = requests (trace g)
       \<and> backoffs (trace g') = backoffs (trace g) \<and> error_logs (trace g') = error_logs (trace g)
       \<and> created (trace g') = created (trace g)"
  using assms
  by (auto simp: handle_stream_from_yield_def handle_stream_except_def report_progress_def
      set_status_def Let_def split: if_splits option.splits prod.splits)

lemma attempt_try_trace:
  assumes "attempt_try c cfg ae g = (r, g')"
  shows "pacing (trace g') = pacing (trace g) @ [None]
       \<and> requests (trace g') = requests (trace g) @ [make_request cfg (prompt c)]
       \<and> backoffs (trace g') = backoffs (trace g) \<and> error_logs (trace g') = error_logs (trace g)
       \<and> created (trace g') = created (trace g)"
proof -
  define g2 where "g2 = emit (Create (make_request cfg (prompt c))) (set_status PROCESSING g)"
  have g2: "pacing (trace g2) = pacing (trace g) @ [None]"
    "requests (trace g2) = requests (trace g) @ [make_request cfg (prompt c)]"
    "backoffs (trace g2) = backoffs (trace g)" "error_logs (trace g2) = error_logs (trace g)"
    "created (trace g2) = created (trace g)"
    by (simp_all add: g2_def set_status_def)
  obtain r1 g1 where ty: "attempt_to_yield c cfg ae g = (r1, g1)"
    by (cases "attempt_to_yield c cfg ae g") auto
  have q1: "pacing (trace g1) = pacing (trace g2) \<and> requests (trace g1) = requests (trace g2)
       \<and> backoffs (trace g1) = backoffs (trace g2) \<and> error_logs (trace g1) = error_logs (trace g2)
       \<and> created (trace g1) = created (trace g2)"
  proof (cases "create_result ae")
    case (Inl e)
    with ty have "g1 = g2" by (simp add: attempt_to_yield_def g2_def Let_def)
    then show ?thesis by simp
  next
    case (Inr stream)
    with ty have "handle_stream_to_yield c ae stream g2 = (r1, g1)"
      by (simp add: attempt_to_yield_def g2_def Let_def)
    then show ?thesis by (rule handle_stream_to_yield_quiet)
  qed
  show ?thesis
  proof (cases r1)
    case (Inl e)
    with assms ty have "g' = g1" by (simp add: attempt_try_def)
    with q1 g2 show ?thesis by simp
  next
    case (Inr full)
    with assms ty have "handle_stream_from_yield c (yield_cancelled ae) full g1 = (r, g')"
      by (simp add: attempt_try_def)
    from handle_stream_from_yield_quiet [OF this] q1 g2 show ?thesis by simp
  qed
qed

section \<open>The retry loop\<close>

text \<open>One iteration, by the outcome of the body of its \<open>try\<close>.\<close>

lemma attempt_step_success:
  assumes "attempt_try c cfg ae g = (Inr final_response, g1)"
  shows "attempt_step c cfg ae a g =
     (Some (Returned (Some \<lparr>res_text = final_response,
                              res_stats = (self_stats g1)\<lparr>status := COMPLETED\<rparr>,
                              res_completion_time = clock_end ae - start_time (self_stats g1)\<rparr>)),
      set_status COMPLETED g1)"
  using assms
  by (simp add: attempt_step_def after_try_def on_success_def set_status_def Let_def)

lemma attempt_step_passes_cancellation:
  assumes "attempt_try c cfg ae g = (Inl e, g1)" and "\<not> is_Exception e"
  shows "attempt_step c cfg ae a g = (Some (Raised e), g1)"
  using assms by (simp add: attempt_step_def after_try_def on_failure_def)

lemma attempt_step_last_failure:
  assumes "attempt_try c cfg ae g = (Inl e, g1)" and "is_Exception e"
    and "int a = max_retries c - 1"
  shows "attempt_step c cfg ae a g =
     (Some (Raised (APIError (''Failed after '' @ str_int (max_retries c) @ '' attempts: ''
                              @ str_exc e))),
      emit (LogError (''Attempt '' @ str_int (int a + 1) @ '' failed: '' @ str_exc e))
        (set_status ERROR g1))"
  using assms by (simp add: attempt_step_def after_try_def on_failure_def Let_def)

lemma attempt_step_retry:
  assumes "attempt_try c cfg ae g = (Inl e, g1)" and "is_Exception e"
    and "int a \<noteq> max_retries c - 1"
  shows "attempt_step c cfg ae a g =
     ((if backoff_cancelled ae then Some (Raised CancelledError) else None),
      emit (Backoff (min (2 ^ a) 10))
        (emit (LogError (''Attempt '' @ str_int (int a + 1) @ '' failed: '' @ str_exc e))
          (set_status ERROR g1)))"
  using assms by (simp add: attempt_step_def after_try_def on_failure_def Let_def)

lemma attempt_step_trace:
  assumes "attempt_step c cfg ae a g = (ro, g')"
  shows "requests (trace g') = requests (trace g) @ [make_request cfg (prompt c)]"
    and "created (trace g') = created (trace g)"
    and "pacing (trace g') = pacing (trace g) @ [None] \<and> ro \<noteq> None
       \<or> int a \<noteq> max_retries c - 1
         \<and> pacing (trace g') = pacing (trace g) @ [None, Some (min (2 ^ a) 10)]"
proof -
  obtain r g1 where ty: "attempt_try c cfg ae g = (r, g1)"
    by (cases "attempt_try c cfg ae g") auto
  note q = attempt_try_trace [OF ty]
  have "requests (trace g') = requests (trace g) @ [make_request cfg (prompt c)]
    \<and> created (trace g') = created (trace g)
    \<and> (pacing (trace g') = pacing (trace g) @ [None] \<and> ro \<noteq> None
       \<or> int a \<noteq> max_retries c - 1
         \<and> pacing (trace g') = pacing (trace g) @ [None, Some (min (2 ^ a) 10)])"
  proof (cases r)
    case (Inr final_response)
    with ty assms attempt_step_success [of c cfg ae g final_response g1 a]
    have "g' = set_status COMPLETED g1" "ro \<noteq> None" by auto
    with q show ?thesis by (simp add: set_status_def)
  next
    case (Inl e)
    show ?thesis
    proof (cases "is_Exception e")
      case False
      with Inl ty assms attempt_step_passes_cancellation [of c cfg ae g e g1 a]
      have "g' = g1" "ro \<noteq> None" by auto
      with q show ?thesis by simp
    next
      case True
      show ?thesis
      proof (cases "int a = max_retries c - 1")
        case last: True
        with True Inl ty assms attempt_step_last_failure [of c cfg ae g e g1 a]
        have "g' = emit (LogError (''Attempt '' @ str_int (int a + 1) @ '' failed: ''
                 @ str_exc e)) (set_status ERROR g1)" "ro \<noteq> None" by auto
        with q show ?thesis by (simp add: set_status_def)
      next
        case False
        with True Inl ty assms attempt_step_retry [of c cfg ae g e g1 a]
        have "g' = emit (Backoff (min (2 ^ a) 10))
            (emit (LogError (''Attempt '' @ str_int (int a + 1) @ '' failed: '' @ str_exc e))
              (set_status ERROR g1))" by auto
        with q False show ?thesis by (simp add: set_status_def)
      qed
    qed
  qed
  then show "requests (trace g') = requests (trace g) @ [make_request cfg (prompt c)]"
    and "created (trace g') = created (trace g)"
    and "pacing (trace g') = pacing (trace g) @ [None] \<and> ro \<noteq> None
       \<or> int a \<noteq> max_retries c - 1
         \<and> pacing (trace g') = pacing (trace g) @ [None, Some (min (2 ^ a) 10)]"
    by simp_all
qed

text \<open>The states of a run, one attempt after the other.\<close>

lemma state_before_attempt_less:
  "state_before_attempt c cfg envs g0 k = Some g \<Longrightarrow> int k < max_retries c"
  by (cases k) (auto split: option.splits prod.splits if_splits)

lemma state_before_attempt_stops:
  assumes "state_before_attempt c cfg envs g0 k = None" and "k \<le> j"
  shows "state_before_attempt c cfg envs g0 j = None"
  using assms(2)
proof (induction j)
  case 0
  with assms(1) show ?case by simp
next
  case (Suc j)
  show ?case
  proof (cases "k = Suc j")
    case True
    with assms(1) show ?thesis by simp
  next
    case False
    with Suc.prems have "k \<le> j" by simp
    from Suc.IH [OF this] show ?thesis by simp
  qed
qed

lemma attempts_from_state_before_attempt:
  assumes "state_before_attempt c cfg envs g0 a = Some ga"
  shows "attempts c cfg envs 0 g0 = attempts c cfg envs a ga"
  using assms
proof (induction a arbitrary: ga)
  case 0
  then show ?case by (simp split: if_splits)
next
  case (Suc a)
  from Suc.prems obtain g where at: "state_before_attempt c cfg envs g0 a = Some g"
    and st: "attempt_step c cfg (envs a) a g = (None, ga)"
    by (auto split: option.splits prod.splits if_splits)
  from state_before_attempt_less [OF at] st
  have "attempts c cfg envs a g = attempts c cfg envs (Suc a) ga"
    by (simp add: attempts.simps [of c cfg envs a g])
  with Suc.IH [OF at] show ?case by simp
qed

text \<open>
  An iteration sleeps the backoff exactly when its body raises an exception that line
  118 catches and it is not the last one allowed; the delay is \<open>min (2 ^ attempt) 10\<close>.
\<close>

lemma attempt_step_backoff:
  assumes "attempt_step c cfg ae a g = (ro, g')"
  shows "pacing (trace g') = pacing (trace g) @ [None]
         \<and> backoffs (trace g') = backoffs (trace g)
         \<and> ro \<noteq> None
         \<and> \<not> ((\<exists>e g1. attempt_try c cfg ae g = (Inl e, g1) \<and> is_Exception e)
              \<and> int a \<noteq> max_retries c - 1)
       \<or> (\<exists>e g1. attempt_try c cfg ae g = (Inl e, g1) \<and> is_Exception e)
         \<and> int a \<noteq> max_retries c - 1
         \<and> pacing (trace g') = pacing (trace g) @ [None, Some (min (2 ^ a) 10)]
         \<and> backoffs (trace g') = backoffs (trace g) @ [min (2 ^ a) 10]"
proof -
  obtain r g1 where ty: "attempt_try c cfg ae g = (r, g1)"
    by (cases "attempt_try c cfg ae g") auto
  note q = attempt_try_trace [OF ty]
  show ?thesis
  proof (cases r)
    case (Inr final_response)
    with ty assms attempt_step_success [of c cfg ae g final_response g1 a]
    have "g' = set_status COMPLETED g1" "ro \<noteq> None" by auto
    with q Inr ty show ?thesis by (simp add: set_status_def)
  next
    case (Inl e)
    show ?thesis
    proof (cases "is_Exception e")
      case False
      with Inl ty assms attempt_step_passes_cancellation [of c cfg ae g e g1 a]
      have "g' = g1" "ro \<noteq> None" by auto
      with q Inl ty False show ?thesis by simp
    next
      case True
      show ?thesis
      proof (cases "int a = max_retries c - 1")
        case last: True
        with True Inl ty assms attempt_step_last_failure [of c cfg ae g e g1 a]
        have "g' = emit (LogError (''Attempt '' @ str_int (int a + 1) @ '' failed: ''
                 @ str_exc e)) (set_status ERROR g1)" "ro \<noteq> None" by auto
        with q last show ?thesis by (simp add: set_status_def)
      next
        case False
        with True Inl ty assms attempt_step_retry [of c cfg ae g e g1 a]
        have "g' = emit (Backoff (min (2 ^ a) 10))
            (emit (LogError (''Attempt '' @ str_int (int a + 1) @ '' failed: '' @ str_exc e))
              (set_status ERROR g1))" by auto
        with q False True Inl ty show ?thesis by (simp add: set_status_def)
      qed
    qed
  qed
qed

lemma retried_iff:
  assumes "state_before_attempt c cfg envs g0 a = Some g"
  shows "retried c cfg envs g0 a \<longleftrightarrow>
     (\<exists>e g1. attempt_try c cfg (envs a) g = (Inl e, g1) \<and> is_Exception e)
     \<and> int a \<noteq> max_retries c - 1"
  using assms state_before_attempt_less [OF assms]
  by (auto simp: retried_def split: prod.splits sum.splits)

lemma not_retried_after_end:
  assumes "state_before_attempt c cfg envs g0 k = None" and "k \<le> j"
  shows "\<not> retried c cfg envs g0 j"
  using state_before_attempt_stops [OF assms] by (simp add: retried_def)

lemma attempts_delays:
  assumes "state_before_attempt c cfg envs g0 a = Some g"
    and "attempts c cfg envs a g = (r, g')"
  shows "\<exists>n rest.
       pacing (trace g') =
         pacing (trace g) @ concat (map (\<lambda>k. [None, Some (min (2 ^ k) 10)]) [a..<a + n]) @ rest
     \<and> (rest = [] \<or> rest = [None])
     \<and> backoffs (trace g') = backoffs (trace g) @ map (\<lambda>k. min (2 ^ k) 10) [a..<a + n]
     \<and> (\<forall>k\<ge>a. k < a + n \<longleftrightarrow> retried c cfg envs g0 k)"
  using assms
proof (induction "nat (max_retries c - int a)" arbitrary: a g)
  case 0
  with state_before_attempt_less [OF "0.prems"(1)] show ?case by simp
next
  case (Suc m)
  note lt = state_before_attempt_less [OF Suc.prems(1)]
  obtain ro g1 where st: "attempt_step c cfg (envs a) a g = (ro, g1)"
    by (cases "attempt_step c cfg (envs a) a g") auto
  note ra = retried_iff [OF Suc.prems(1)]
  from attempt_step_backoff [OF st] consider
    (quiet) "pacing (trace g1) = pacing (trace g) @ [None]"
      "backoffs (trace g1) = backoffs (trace g)" "ro \<noteq> None" "\<not> retried c cfg envs g0 a"
    | (sleeps) "retried c cfg envs g0 a"
      "pacing (trace g1) = pacing (trace g) @ [None, Some (min (2 ^ a) 10)]"
      "backoffs (trace g1) = backoffs (trace g) @ [min (2 ^ a) 10]"
    unfolding ra by blast
  then show ?case
  proof cases
    case quiet
    from quiet(3) obtain out where ro: "ro = Some out" by auto
    with Suc.prems(2) lt st have g': "g' = g1" by (simp add: attempts.simps)
    from ro st Suc.prems(1) have "state_before_attempt c cfg envs g0 (Suc a) = None" by simp
    then have later: "\<forall>k\<ge>Suc a. \<not> retried c cfg envs g0 k"
      using not_retried_after_end by blast
    have "\<forall>k\<ge>a. k < a + 0 \<longleftrightarrow> retried c cfg envs g0 k"
    proof (intro allI impI)
      fix k assume "a \<le> k"
      then have "k = a \<or> Suc a \<le> k" by auto
      with later quiet(4) show "k < a + 0 \<longleftrightarrow> retried c cfg envs g0 k" by auto
    qed
    moreover from quiet g' have "pacing (trace g') = pacing (trace g)
        @ concat (map (\<lambda>k. [None, Some (min (2 ^ k) 10)]) [a..<a + 0]) @ [None]"
      "backoffs (trace g') = backoffs (trace g) @ map (\<lambda>k. min (2 ^ k) 10) [a..<a + 0]"
      by simp_all
    ultimately show ?thesis by blast
  next
    case sleeps
    from sleeps(1) ra lt have lt': "int (Suc a) < max_retries c" by simp
    show ?thesis
    proof (cases ro)
      case (Some out)
      with Suc.prems(2) lt st have g': "g' = g1" by (simp add: attempts.simps)
      from Some st Suc.prems(1) have "state_before_attempt c cfg envs g0 (Suc a) = None" by simp
      then have later: "\<forall>k\<ge>Suc a. \<not> retried c cfg envs g0 k"
        using not_retried_after_end by blast
      have "\<forall>k\<ge>a. k < a + 1 \<longleftrightarrow> retried c cfg envs g0 k"
      proof (intro allI impI)
        fix k assume "a \<le> k"
        then have "k = a \<or> Suc a \<le> k" by auto
        with later sleeps(1) show "k < a + 1 \<longleftrightarrow> retried c cfg envs g0 k" by auto
      qed
      moreover from sleeps g' have "pacing (trace g') = pacing (trace g)
          @ concat (map (\<lambda>k. [None, Some (min (2 ^ k) 10)]) [a..<a + 1]) @ []"
        "backoffs (trace g') = backoffs (trace g) @ map (\<lambda>k. min (2 ^ k) 10) [a..<a + 1]"
        by simp_all
      ultimately show ?thesis by blast
    next
      case None
      with Suc.prems(2) lt st have rec: "attempts c cfg envs (Suc a) g1 = (r, g')"
        by (simp add: attempts.simps)
      from None st Suc.prems(1) lt'
      have at': "state_before_attempt c cfg envs g0 (Suc a) = Some g1" by simp
      from Suc.hyps(2) have "m = nat (max_retries c - int (Suc a))" by simp
      from Suc.hyps(1) [OF this at' rec] obtain n rest where ih:
        "pacing (trace g') = pacing (trace g1)
           @ concat (map (\<lambda>k. [None, Some (min (2 ^ k) 10)]) [Suc a..<Suc a + n]) @ rest"
        "rest = [] \<or> rest = [None]"
        "backoffs (trace g') = backoffs (trace g1) @ map (\<lambda>k. min (2 ^ k) 10) [Suc a..<Suc a + n]"
        "\<forall>k\<ge>Suc a. k < Suc a + n \<longleftrightarrow> retried c cfg envs g0 k"
        by blast
      have up: "[a..<a + Suc n] = a # [Suc a..<Suc a + n]" by (simp add: upt_conv_Cons)
      have "\<forall>k\<ge>a. k < a + Suc n \<longleftrightarrow> retried c cfg envs g0 k"
      proof (intro allI impI)
        fix k assume "a \<le> k"
        then have "k = a \<or> Suc a \<le> k" by auto
        with ih(4) sleeps(1) show "k < a + Suc n \<longleftrightarrow> retried c cfg envs g0 k" by auto
      qed
      moreover from ih(1) sleeps(2) up have "pacing (trace g') = pacing (trace g)
          @ concat (map (\<lambda>k. [None, Some (min (2 ^ k) 10)]) [a..<a + Suc n]) @ rest"
        by simp
      moreover from ih(3) sleeps(3) up
      have "backoffs (trace g') = backoffs (trace g) @ map (\<lambda>k. min (2 ^ k) 10) [a..<a + Suc n]"
        by simp
      ultimately show ?thesis using ih(2) by blast
    qed
  qed
qed

text \<open>
  Claim C6. A backoff sleep is requested exactly after each attempt of the run that
  fails with an exception other than a cancellation and is not the last one allowed:
  these are the attempts with the indices below some \<open>n\<close>. In the trace of the call the
  streams opened and the sleeps alternate, and the sleep that follows the attempt with
  index \<open>a\<close> (counted from 0), that is the sleep before the attempt \<open>k = a + 1\<close>, lasts
  \<open>min (2 ^ a) 10 = min (2 ^ (k - 1)) 10\<close> seconds. No sleep of the call lasts more than 10
  seconds.
\<close>

theorem backoff_delays:
  "\<exists>n rest.
     pacing (trace (snd (generate_code_with_explanation c cfg w g))) =
       pacing (trace g) @ concat (map (\<lambda>a. [None, Some (min (2 ^ a) 10)]) [0..<n]) @ rest
     \<and> (rest = [] \<or> rest = [None])
     \<and> (\<forall>a. a < n \<longleftrightarrow>
           retried c cfg (attempt_envs w) (assign_stats (new_StreamStats (clock_start w)) g) a)
     \<and> backoffs (trace (snd (generate_code_with_explanation c cfg w g))) =
         backoffs (trace g) @ map (\<lambda>a. min (2 ^ a) 10) [0..<n]
     \<and> list_all (\<lambda>d. d \<le> 10)
         (drop (length (backoffs (trace g)))
            (backoffs (trace (snd (generate_code_with_explanation c cfg w g)))))"
proof -
  define g0 where "g0 = assign_stats (new_StreamStats (clock_start w)) g"
  obtain r g' where run: "attempts c cfg (attempt_envs w) 0 g0 = (r, g')"
    by (cases "attempts c cfg (attempt_envs w) 0 g0") auto
  then have g': "snd (generate_code_with_explanation c cfg w g) = g'"
    by (simp add: generate_code_with_explanation_def g0_def)
  have g0: "pacing (trace g0) = pacing (trace g)" "backoffs (trace g0) = backoffs (trace g)"
    by (simp_all add: g0_def)
  have "\<exists>n rest.
       pacing (trace g') =
         pacing (trace g) @ concat (map (\<lambda>a. [None, Some (min (2 ^ a) 10)]) [0..<n]) @ rest
     \<and> (rest = [] \<or> rest = [None])
     \<and> (\<forall>a. a < n \<longleftrightarrow> retried c cfg (attempt_envs w) g0 a)
     \<and> backoffs (trace g') = backoffs (trace g) @ map (\<lambda>a. min (2 ^ a) 10) [0..<n]"
  proof (cases "0 < max_retries c")
    case True
    then have "state_before_attempt c cfg (attempt_envs w) g0 0 = Some g0" by simp
    from attempts_delays [OF this run] g0 obtain n rest where
      "pacing (trace g') =
         pacing (trace g) @ concat (map (\<lambda>a. [None, Some (min (2 ^ a) 10)]) [0..<n]) @ rest"
      "rest = [] \<or> rest = [None]"
      "backoffs (trace g') = backoffs (trace g) @ map (\<lambda>a. min (2 ^ a) 10) [0..<n]"
      "\<forall>a. a < n \<longleftrightarrow> retried c cfg (attempt_envs w) g0 a"
      by auto
    then show ?thesis by blast
  next
    case False
    then have none: "state_before_attempt c cfg (attempt_envs w) g0 0 = None" by simp
    have "\<forall>a. a < (0 :: nat) \<longleftrightarrow> retried c cfg (attempt_envs w) g0 a"
      using not_retried_after_end [OF none] by simp
    moreover from False run have "g' = g0" by (simp add: attempts.simps)
    with g0 have "pacing (trace g') = pacing (trace g)
        @ concat (map (\<lambda>a. [None, Some (min (2 ^ a) 10)]) [0..<0]) @ []"
      "backoffs (trace g') = backoffs (trace g) @ map (\<lambda>a. min (2 ^ a) 10) [0..<0]"
      by simp_all
    ultimately show ?thesis by blast
  qed
  then obtain n rest where
    "pacing (trace g') =
         pacing (trace g) @ concat (map (\<lambda>a. [None, Some (min (2 ^ a) 10)]) [0..<n]) @ rest"
    "rest = [] \<or> rest = [None]"
    "\<forall>a. a < n \<longleftrightarrow> retried c cfg (attempt_envs w) g0 a"
    and bo: "backoffs (trace g') = backoffs (trace g) @ map (\<lambda>a. min (2 ^ a) 10) [0..<n]"
    by blast
  moreover from bo have "list_all (\<lambda>d. d \<le> 10) (drop (length (backoffs (trace g)))
      (backoffs (trace g')))"
    by (simp add: list_all_iff)
  ultimately show ?thesis unfolding g' g0_def by blast
qed

theorem backoff_delays_witness:
  "retried (quiet_call 6) example_config (\<lambda>k. failing_env ''timeout'')
      (assign_stats (new_StreamStats 0) idle_state) 4
   \<and> \<not> retried (quiet_call 6) example_config (\<lambda>k. failing_env ''timeout'')
      (assign_stats (new_StreamStats 0) idle_state) 5
   \<and> (\<exists>rest. pacing (trace (snd (generate_code_with_explanation (quiet_call 6) example_config
              \<lparr>clock_start = 0, attempt_envs = (\<lambda>k. failing_env ''timeout'')\<rparr> idle_state))) =
            [None, Some 1, None, Some 2, None, Some 4, None, Some 8, None, Some 10] @ rest
          \<and> (rest = [] \<or> rest = [None]))
   \<and> backoffs (trace (snd (generate_code_with_explanation (quiet_call 6) example_config
              \<lparr>clock_start = 0, attempt_envs = (\<lambda>k. failing_env ''timeout'')\<rparr> idle_state))) =
        [1, 2, 4, 8, 10]"
proof -
  let ?w = "\<lparr>clock_start = 0, attempt_envs = (\<lambda>k. failing_env ''timeout'')\<rparr>"
  let ?g0 = "assign_stats (new_StreamStats 0) idle_state"
  let ?g' = "snd (generate_code_with_explanation (quiet_call 6) example_config ?w idle_state)"
  have r4: "retried (quiet_call 6) example_config (\<lambda>k. failing_env ''timeout'') ?g0 4"
    by (simp add: retried_def attempt_step_def attempt_try_def attempt_to_yield_def
        after_try_def on_failure_def failing_env_def quiet_call_def Let_def eval_nat_numeral)
  have r5: "\<not> retried (quiet_call 6) example_config (\<lambda>k. failing_env ''timeout'') ?g0 5"
    by (simp add: retried_def attempt_step_def attempt_try_def attempt_to_yield_def
        after_try_def on_failure_def failing_env_def quiet_call_def Let_def eval_nat_numeral)
  from backoff_delays [of "quiet_call 6" example_config ?w idle_state] obtain n rest where
    p: "pacing (trace ?g') = pacing (trace idle_state)
          @ concat (map (\<lambda>a. [None, Some (min (2 ^ a) 10)]) [0..<n]) @ rest"
    and rest: "rest = [] \<or> rest = [None]"
    and n: "\<forall>a. a < n \<longleftrightarrow> retried (quiet_call 6) example_config (\<lambda>k. failing_env ''timeout'') ?g0 a"
    and b: "backoffs (trace ?g') = backoffs (trace idle_state)
          @ map (\<lambda>a. min (2 ^ a) 10) [0..<n]"
    by auto
  from n r4 r5 have "4 < n" "\<not> 5 < n" by blast+
  then have "n = 5" by simp
  with p b have "pacing (trace ?g') =
      [None, Some 1, None, Some 2, None, Some 4, None, Some 8, None, Some 10] @ rest"
    "backoffs (trace ?g') = [1, 2, 4, 8, 10]"
    by (simp_all add: idle_state_def eval_nat_numeral)
  with rest r4 r5 show ?thesis by blast
qed

lemma attempts_all_fail:
  assumes fails: "\<And>k g. state_before_attempt c cfg envs g0 k = Some g \<Longrightarrow>
      \<exists>e g1. attempt_try c cfg (envs k) g = (Inl e, g1) \<and> is_Exception e \<and> str_exc e = msg k"
    and awake: "\<And>k g. state_before_attempt c cfg envs g0 k = Some g \<Longrightarrow>
      int k < max_retries c - 1 \<Longrightarrow> \<not> backoff_cancelled (envs k)"
    and at: "state_before_attempt c cfg envs g0 a = Some g"
  shows "\<exists>g'. attempts c cfg envs a g =
           (Raised (APIError (''Failed after '' @ str_int (max_retries c) @ '' attempts: ''
                              @ msg (nat (max_retries c) - 1))), g')
         \<and> requests (trace g') =
             requests (trace g) @ replicate (nat (max_retries c) - a) (make_request cfg (prompt c))
         \<and> error_logs (trace g') = error_logs (trace g)
             @ map (\<lambda>k. ''Attempt '' @ str_int (int k + 1) @ '' failed: '' @ msg k)
                 [a..<nat (max_retries c)]
         \<and> backoffs (trace g') =
             backoffs (trace g) @ map (\<lambda>k. min (2 ^ k) 10) [a..<nat (max_retries c) - 1]"
  using at
proof (induction "nat (max_retries c) - Suc a" arbitrary: a g)
  case 0
  note lt = state_before_attempt_less [OF "0.prems"]
  with 0 have last: "int a = max_retries c - 1" by simp
  then have a: "a = nat (max_retries c) - 1" "nat (max_retries c) = Suc a" by simp_all
  from fails [OF "0.prems"] obtain e g1 where
    ty: "attempt_try c cfg (envs a) g = (Inl e, g1)" and e: "is_Exception e" "str_exc e = msg a"
    by blast
  note q = attempt_try_trace [OF ty]
  from attempt_step_last_failure [OF ty e(1) last] lt e(2)
  have "attempts c cfg envs a g =
      (Raised (APIError (''Failed after '' @ str_int (max_retries c) @ '' attempts: '' @ msg a)),
       emit (LogError (''Attempt '' @ str_int (int a + 1) @ '' failed: '' @ msg a))
         (set_status ERROR g1))"
    by (simp add: attempts.simps)
  with q a show ?case by (simp add: set_status_def)
next
  case (Suc m)
  note lt = state_before_attempt_less [OF Suc.prems]
  with Suc have nl: "int a \<noteq> max_retries c - 1" and lt': "int (Suc a) < max_retries c"
    and early: "int a < max_retries c - 1" by simp_all
  from fails [OF Suc.prems] obtain e g1 where
    ty: "attempt_try c cfg (envs a) g = (Inl e, g1)" and e: "is_Exception e" "str_exc e = msg a"
    by blast
  note q = attempt_try_trace [OF ty]
  define g2 where "g2 = emit (Backoff (min (2 ^ a) 10))
        (emit (LogError (''Attempt '' @ str_int (int a + 1) @ '' failed: '' @ msg a))
          (set_status ERROR g1))"
  from attempt_step_retry [OF ty e(1) nl] awake [OF Suc.prems early] e(2)
  have st: "attempt_step c cfg (envs a) a g = (None, g2)" by (simp add: g2_def)
  with lt have rec: "attempts c cfg envs a g = attempts c cfg envs (Suc a) g2"
    by (simp add: attempts.simps)
  from st Suc.prems lt' have at': "state_before_attempt c cfg envs g0 (Suc a) = Some g2"
    by simp
  from Suc.hyps(2) have m: "m = nat (max_retries c) - Suc (Suc a)" by simp
  from Suc.hyps(1) [OF m at'] obtain g' where
    run: "attempts c cfg envs (Suc a) g2 =
           (Raised (APIError (''Failed after '' @ str_int (max_retries c) @ '' attempts: ''
                              @ msg (nat (max_retries c) - 1))), g')"
    and rq: "requests (trace g') = requests (trace g2)
               @ replicate (nat (max_retries c) - Suc a) (make_request cfg (prompt c))"
    and el: "error_logs (trace g') = error_logs (trace g2)
             @ map (\<lambda>k. ''Attempt '' @ str_int (int k + 1) @ '' failed: '' @ msg k)
                 [Suc a..<nat (max_retries c)]"
    and bo: "backoffs (trace g') =
             backoffs (trace g2) @ map (\<lambda>k. min (2 ^ k) 10) [Suc a..<nat (max_retries c) - 1]"
    by blast
  from lt' have u1: "[a..<nat (max_retries c)] = a # [Suc a..<nat (max_retries c)]"
    by (simp add: upt_conv_Cons)
  from lt' have u2: "[a..<nat (max_retries c) - 1] = a # [Suc a..<nat (max_retries c) - 1]"
    by (simp add: upt_conv_Cons)
  from lt' have u3: "replicate (nat (max_retries c) - a) (make_request cfg (prompt c)) =
      make_request cfg (prompt c)
        # replicate (nat (max_retries c) - Suc a) (make_request cfg (prompt c))"
    by (simp add: Suc_diff_le flip: replicate_Suc)
  from q have "requests (trace g2) = requests (trace g) @ [make_request cfg (prompt c)]"
    "error_logs (trace g2) = error_logs (trace g)
       @ [''Attempt '' @ str_int (int a + 1) @ '' failed: '' @ msg a]"
    "backoffs (trace g2) = backoffs (trace g) @ [min (2 ^ a) 10]"
    by (simp_all add: g2_def set_status_def)
  with rq el bo u1 u2 u3 rec run show ?case by simp
qed

lemma attempts_raises:
  assumes "attempts c cfg envs a g = (Raised x, g')"
  shows "x = CancelledError
       \<or> (\<exists>m. x = APIError (''Failed after '' @ str_int (max_retries c) @ '' attempts: '' @ m)
              \<and> requests (trace g') = requests (trace g)
                  @ replicate (nat (max_retries c) - a) (make_request cfg (prompt c)))"
  using assms
proof (induction "nat (max_retries c - int a)" arbitrary: a g)
  case 0
  then have "\<not> int a < max_retries c" by simp
  with "0.prems" show ?case by (simp add: attempts.simps)
next
  case (Suc n)
  then have lt: "int a < max_retries c" by simp
  obtain ro g1 where st: "attempt_step c cfg (envs a) a g = (ro, g1)"
    by (cases "attempt_step c cfg (envs a) a g") auto
  obtain r g0 where ty: "attempt_try c cfg (envs a) g = (r, g0)"
    by (cases "attempt_try c cfg (envs a) g") auto
  note rq = attempt_step_trace(1) [OF st]
  from lt have rep: "replicate (nat (max_retries c) - a) (make_request cfg (prompt c)) =
      make_request cfg (prompt c)
        # replicate (nat (max_retries c) - Suc a) (make_request cfg (prompt c))"
    by (simp add: Suc_diff_le flip: replicate_Suc)
  show ?case
  proof (cases ro)
    case None
    with Suc.prems lt st have rec: "attempts c cfg envs (Suc a) g1 = (Raised x, g')"
      by (simp add: attempts.simps)
    from Suc.hyps(2) have "n = nat (max_retries c - int (Suc a))" by simp
    from Suc.hyps(1) [OF this rec] rq rep show ?thesis by auto
  next
    case (Some out)
    with Suc.prems lt st have out: "out = Raised x" "g' = g1" by (simp_all add: attempts.simps)
    show ?thesis
    proof (cases r)
      case (Inr final_response)
      with ty st Some out attempt_step_success [of c cfg "envs a" g final_response g0 a]
      show ?thesis by simp
    next
      case (Inl e)
      show ?thesis
      proof (cases "is_Exception e")
        case False
        with Inl ty st Some out attempt_step_passes_cancellation [of c cfg "envs a" g e g0 a]
        have "x = e" by simp
        with False show ?thesis by (cases e) simp_all
      next
        case True
        show ?thesis
        proof (cases "int a = max_retries c - 1")
          case last: True
          with True Inl ty st Some out attempt_step_last_failure [of c cfg "envs a" g e g0 a]
          have "x = APIError (''Failed after '' @ str_int (max_retries c) @ '' attempts: ''
                     @ str_exc e)" by simp
          moreover from last have "nat (max_retries c) - a = 1" by simp
          ultimately show ?thesis using rq out by simp
        next
          case False
          with True Inl ty st Some out attempt_step_retry [of c cfg "envs a" g e g0 a]
          have "x = CancelledError" by (simp split: if_splits)
          then show ?thesis by simp
        qed
      qed
    qed
  qed
qed

text \<open>
  Claim C1. With \<open>max_retries = N \<ge> 1\<close>, when the body of every attempt of the run raises an
  exception other than a cancellation (while the stream is opened or while it is
  consumed) and no backoff sleep is cancelled, the call opens exactly \<open>N\<close> streams, logs
  \<open>N\<close> failures, sleeps \<open>N - 1\<close> times and raises the \<open>APIError\<close> with the text
  \<open>Failed after N attempts: m\<close>, where \<open>m\<close> is the message of the failure of the last attempt.
  And whenever a call raises, it raises either a cancellation or this \<open>APIError\<close>, after
  \<open>N\<close> streams were opened.
\<close>

theorem retries_exhausted:
  "(1 \<le> max_retries c
     \<and> (\<forall>k gk. state_before_attempt c cfg (attempt_envs w)
                  (assign_stats (new_StreamStats (clock_start w)) g) k = Some gk \<longrightarrow>
           (\<exists>e g1. attempt_try c cfg (attempt_envs w k) gk = (Inl e, g1)
              \<and> is_Exception e \<and> str_exc e = msg k)
           \<and> (int k < max_retries c - 1 \<longrightarrow> \<not> backoff_cancelled (attempt_envs w k)))
    \<longrightarrow> (\<exists>g'. generate_code_with_explanation c cfg w g =
             (Raised (APIError (''Failed after '' @ str_int (max_retries c) @ '' attempts: ''
                                @ msg (nat (max_retries c) - 1))), g')
          \<and> requests (trace g') =
              requests (trace g) @ replicate (nat (max_retries c)) (make_request cfg (prompt c))
          \<and> error_logs (trace g') = error_logs (trace g)
              @ map (\<lambda>k. ''Attempt '' @ str_int (int k + 1) @ '' failed: '' @ msg k)
                  [0..<nat (max_retries c)]
          \<and> backoffs (trace g') =
              backoffs (trace g) @ map (\<lambda>k. min (2 ^ k) 10) [0..<nat (max_retries c) - 1]))
   \<and> (\<forall>x g'. generate_code_with_explanation c cfg w g = (Raised x, g') \<longrightarrow>
          x = CancelledError
          \<or> (\<exists>m. x = APIError (''Failed after '' @ str_int (max_retries c) @ '' attempts: '' @ m)
                \<and> requests (trace g') = requests (trace g)
                    @ replicate (nat (max_retries c)) (make_request cfg (prompt c))))"
proof (intro conjI impI allI)
  define g0 where "g0 = assign_stats (new_StreamStats (clock_start w)) g"
  assume h: "1 \<le> max_retries c
     \<and> (\<forall>k gk. state_before_attempt c cfg (attempt_envs w)
                  (assign_stats (new_StreamStats (clock_start w)) g) k = Some gk \<longrightarrow>
           (\<exists>e g1. attempt_try c cfg (attempt_envs w k) gk = (Inl e, g1)
              \<and> is_Exception e \<and> str_exc e = msg k)
           \<and> (int k < max_retries c - 1 \<longrightarrow> \<not> backoff_cancelled (attempt_envs w k)))"
  then have at: "state_before_attempt c cfg (attempt_envs w) g0 0 = Some g0" by simp
  from h have fails: "\<And>k gk. state_before_attempt c cfg (attempt_envs w) g0 k = Some gk \<Longrightarrow>
      \<exists>e g1. attempt_try c cfg (attempt_envs w k) gk = (Inl e, g1)
        \<and> is_Exception e \<and> str_exc e = msg k" unfolding g0_def by blast
  from h have awake: "\<And>k gk. state_before_attempt c cfg (attempt_envs w) g0 k = Some gk \<Longrightarrow>
      int k < max_retries c - 1 \<Longrightarrow> \<not> backoff_cancelled (attempt_envs w k)"
    unfolding g0_def by blast
  from attempts_all_fail [of c cfg "attempt_envs w" g0 msg 0 g0, OF fails awake at]
  show "\<exists>g'. generate_code_with_explanation c cfg w g =
             (Raised (APIError (''Failed after '' @ str_int (max_retries c) @ '' attempts: ''
                                @ msg (nat (max_retries c) - 1))), g')
          \<and> requests (trace g') =
              requests (trace g) @ replicate (nat (max_retries c)) (make_request cfg (prompt c))
          \<and> error_logs (trace g') = error_logs (trace g)
              @ map (\<lambda>k. ''Attempt '' @ str_int (int k + 1) @ '' failed: '' @ msg k)
                  [0..<nat (max_retries c)]
          \<and> backoffs (trace g') =
              backoffs (trace g) @ map (\<lambda>k. min (2 ^ k) 10) [0..<nat (max_retries c) - 1]"
    by (simp add: generate_code_with_explanation_def g0_def)
next
  fix x g'
  assume "generate_code_with_explanation c cfg w g = (Raised x, g')"
  then have "attempts c cfg (attempt_envs w) 0
      (assign_stats (new_StreamStats (clock_start w)) g) = (Raised x, g')"
    by (simp add: generate_code_with_explanation_def)
  from attempts_raises [OF this]
  show "x = CancelledError
      \<or> (\<exists>m. x = APIError (''Failed after '' @ str_int (max_retries c) @ '' attempts: '' @ m)
            \<and> requests (trace g') = requests (trace g)
                @ replicate (nat (max_retries c)) (make_request cfg (prompt c)))"
    by simp
qed

theorem retries_exhausted_witness:
  "1 \<le> max_retries (quiet_call 3)
   \<and> (\<forall>k g. \<exists>e g1. attempt_try (quiet_call 3) example_config (failing_env ''timeout'') g
                     = (Inl e, g1) \<and> is_Exception e \<and> str_exc e = ''timeout'')
   \<and> (\<forall>k :: nat. \<not> backoff_cancelled (failing_env ''timeout''))
   \<and> (\<exists>g'. generate_code_with_explanation (quiet_call 3) example_config
              \<lparr>clock_start = 0, attempt_envs = (\<lambda>k. failing_env ''timeout'')\<rparr> idle_state =
            (Raised (APIError ''Failed after 3 attempts: timeout''), g')
          \<and> requests (trace g') =
              replicate 3 (make_request example_config ''add two numbers'')
          \<and> error_logs (trace g') =
              [''Attempt 1 failed: timeout'', ''Attempt 2 failed: timeout'',
               ''Attempt 3 failed: timeout'']
          \<and> backoffs (trace g') = [1, 2])"
proof -
  have fails: "\<forall>k g. \<exists>e g1. attempt_try (quiet_call 3) example_config (failing_env ''timeout'') g
                     = (Inl e, g1) \<and> is_Exception e \<and> str_exc e = ''timeout''"
    by (simp add: attempt_try_def attempt_to_yield_def failing_env_def Let_def)
  have awake: "\<forall>k :: nat. \<not> backoff_cancelled (failing_env ''timeout'')"
    by (simp add: failing_env_def)
  have n: "1 \<le> max_retries (quiet_call 3)" by (simp add: quiet_call_def)
  from retries_exhausted [of "quiet_call 3" example_config
      "\<lparr>clock_start = 0, attempt_envs = (\<lambda>k. failing_env ''timeout'')\<rparr>" idle_state
      "\<lambda>k. ''timeout''"] fails awake n
  have "\<exists>g'. generate_code_with_explanation (quiet_call 3) example_config
              \<lparr>clock_start = 0, attempt_envs = (\<lambda>k. failing_env ''timeout'')\<rparr> idle_state =
            (Raised (APIError (''Failed after '' @ str_int (max_retries (quiet_call 3))
                @ '' attempts: '' @ ''timeout'')), g')
          \<and> requests (trace g') = requests (trace idle_state)
              @ replicate (nat (max_retries (quiet_call 3)))
                  (make_request example_config (prompt (quiet_call 3)))
          \<and> error_logs (trace g') = error_logs (trace idle_state)
              @ map (\<lambda>k. ''Attempt '' @ str_int (int k + 1) @ '' failed: '' @ ''timeout'')
                  [0..<nat (max_retries (quiet_call 3))]
          \<and> backoffs (trace g') = backoffs (trace idle_state)
              @ map (\<lambda>k. min (2 ^ k) 10) [0..<nat (max_retries (quiet_call 3)) - 1]"
    by simp
  then have "\<exists>g'. generate_code_with_explanation (quiet_call 3) example_config
              \<lparr>clock_start = 0, attempt_envs = (\<lambda>k. failing_env ''timeout'')\<rparr> idle_state =
            (Raised (APIError ''Failed after 3 attempts: timeout''), g')
          \<and> requests (trace g') =
              replicate 3 (make_request example_config ''add two numbers'')
          \<and> error_logs (trace g') =
              [''Attempt 1 failed: timeout'', ''Attempt 2 failed: timeout'',
               ''Attempt 3 failed: timeout'']
          \<and> backoffs (trace g') = [1, 2]"
    by (simp add: quiet_call_def idle_state_def str_int_def str_nat.simps digit_def
        eval_nat_numeral)
  with fails awake n show ?thesis by blast
qed

section \<open>Consuming a stream\<close>

lemma fragments_simps [simp]:
  "fragments [] = []"
  "fragments (chunk # cs) =
     (if format_chunk chunk = [] then fragments cs else format_chunk chunk # fragments cs)"
  "fragments (cs @ cs') = fragments cs @ fragments cs'"
  by (simp_all add: fragments_def)

lemma concat_fragments: "concat (fragments cs) = concat (map format_chunk cs)"
  by (induction cs) simp_all

text \<open>One pass through the loop body that raises nothing.\<close>

lemma process_chunk_ok:
  assumes "process_chunk c chunk g full = (None, g', full')"
  shows "full' = full @ format_chunk chunk"
    and "delivered (trace g') = delivered (trace g) @ fragments [chunk]"
    and "chunks_processed (self_stats g') =
           chunks_processed (self_stats g) + int (length (fragments [chunk]))"
    and "total_tokens (self_stats g') =
           total_tokens (self_stats g) + sum_list (map word_count (fragments [chunk]))"
    and "status (self_stats g') = status (self_stats g)"
    and "start_time (self_stats g') = start_time (self_stats g)"
    and "progress_reports (trace g') = progress_reports (trace g)
           @ (case progress_callback c of None \<Rightarrow> [] | Some p \<Rightarrow> [self_stats g'])"
  using assms
  by (auto simp: process_chunk_def on_text_def report_progress_def log_format_warning_def
      word_count_def Let_def split: if_splits option.splits prod.splits)

text \<open>The loop, when it runs to the end of a finite chunk sequence.\<close>

lemma stream_loop_complete:
  assumes "stream_loop c cancelled i (stream_of cs) g full = (None, g', full')"
  shows "full' = full @ concat (fragments cs)
       \<and> delivered (trace g') = delivered (trace g) @ fragments cs
       \<and> chunks_processed (self_stats g') =
           chunks_processed (self_stats g) + int (length (fragments cs))
       \<and> total_tokens (self_stats g') =
           total_tokens (self_stats g) + sum_list (map word_count (fragments cs))
       \<and> status (self_stats g') = status (self_stats g)
       \<and> start_time (self_stats g') = start_time (self_stats g)
       \<and> (\<exists>R. progress_reports (trace g') = progress_reports (trace g) @ R
              \<and> length R = (if progress_callback c = None then 0 else length cs)
              \<and> list_all (\<lambda>s. status s = status (self_stats g)) R)"
  using assms
proof (induction cs arbitrary: i g full)
  case Nil
  then show ?case by simp
next
  case (Cons chunk cs)
  from Cons.prems have nc: "\<not> cancelled i" by (auto split: if_splits)
  obtain r1 g1 full1 where pc: "process_chunk c chunk g full = (r1, g1, full1)"
    by (cases "process_chunk c chunk g full") auto
  with Cons.prems nc have r1: "r1 = None"
    and rest: "stream_loop c cancelled (Suc i) (stream_of cs) g1 full1 = (None, g', full')"
    by (auto split: option.splits)
  note one = process_chunk_ok [OF pc [unfolded r1]]
  from Cons.IH [OF rest] obtain R where ih:
    "full' = full1 @ concat (fragments cs)"
    "delivered (trace g') = delivered (trace g1) @ fragments cs"
    "chunks_processed (self_stats g') =
       chunks_processed (self_stats g1) + int (length (fragments cs))"
    "total_tokens (self_stats g') =
       total_tokens (self_stats g1) + sum_list (map word_count (fragments cs))"
    "status (self_stats g') = status (self_stats g1)"
    "start_time (self_stats g') = start_time (self_stats g1)"
    "progress_reports (trace g') = progress_reports (trace g1) @ R"
    "length R = (if progress_callback c = None then 0 else length cs)"
    "list_all (\<lambda>s. status s = status (self_stats g1)) R"
    by blast
  let ?R1 = "case progress_callback c of None \<Rightarrow> [] | Some p \<Rightarrow> [self_stats g1]"
  have "progress_reports (trace g') = progress_reports (trace g) @ (?R1 @ R)"
    using ih(7) one(7) by simp
  moreover have "length (?R1 @ R) = (if progress_callback c = None then 0 else length (chunk # cs))"
    using ih(8) by (simp split: option.splits)
  moreover have "list_all (\<lambda>s. status s = status (self_stats g)) (?R1 @ R)"
    using ih(9) one(5) by (simp split: option.splits)
  ultimately have "\<exists>R. progress_reports (trace g') = progress_reports (trace g) @ R
      \<and> length R = (if progress_callback c = None then 0 else length (chunk # cs))
      \<and> list_all (\<lambda>s. status s = status (self_stats g)) R"
    by blast
  moreover have "full' = full @ concat (fragments (chunk # cs))"
    using ih(1) one(1) by simp
  moreover have "delivered (trace g') = delivered (trace g) @ fragments (chunk # cs)"
    using ih(2) one(2) by simp
  moreover have "chunks_processed (self_stats g') =
      chunks_processed (self_stats g) + int (length (fragments (chunk # cs)))"
    using ih(3) one(3) by simp
  moreover have "total_tokens (self_stats g') =
      total_tokens (self_stats g) + sum_list (map word_count (fragments (chunk # cs)))"
    using ih(4) one(4) by simp
  ultimately show ?case using ih(5,6) one(5,6) by simp
qed

text \<open>What \<open>handle_stream\<close> does with the outcome of the loop.\<close>

lemma handle_stream_loop_raises:
  assumes "stream_loop c (cancelled_at ae) 0 stream g [] = (Some e, g1, full)"
  shows "handle_stream c ae stream g =
     (if e = CancelledError then (Inl CancelledError, emit WarnCancelled g1)
      else (Inl (StreamProcessError (''Error processing stream: '' @ str_exc e)), g1))"
  using assms
  by (cases e)
     (simp_all add: handle_stream_def handle_stream_to_yield_def handle_stream_except_def)

lemma handle_stream_loop_completes:
  assumes "stream_loop c (cancelled_at ae) 0 stream g [] = (None, g1, full)"
  shows "handle_stream c ae stream g =
     (if yield_cancelled ae then
        (Inl CancelledError, emit WarnCancelled (emit YieldSleep g1))
      else
        (case report_progress c (set_status COMPLETED (emit YieldSleep g1)) of
           (Some e, g2) \<Rightarrow> (Inl e, g2)
         | (None, g2) \<Rightarrow> (Inr full, g2)))"
  using assms
  by (simp add: handle_stream_def handle_stream_to_yield_def handle_stream_from_yield_def
      handle_stream_except_def Let_def)

lemma handle_stream_returns:
  assumes "handle_stream c ae stream g = (Inr final_response, g')"
  obtains g1 where "stream_loop c (cancelled_at ae) 0 stream g [] = (None, g1, final_response)"
    and "\<not> yield_cancelled ae"
    and "report_progress c (set_status COMPLETED (emit YieldSleep g1)) = (None, g')"
proof -
  obtain r g1 full where sl: "stream_loop c (cancelled_at ae) 0 stream g [] = (r, g1, full)"
    by (cases "stream_loop c (cancelled_at ae) 0 stream g []") auto
  show thesis
  proof (cases r)
    case (Some e)
    with sl handle_stream_loop_raises [of c ae stream g e g1 full] assms show ?thesis
      by (simp split: if_splits)
  next
    case None
    with sl handle_stream_loop_completes [of c ae stream g g1 full] assms that show ?thesis
      by (auto split: if_splits prod.splits option.splits)
  qed
qed

text \<open>The equations that evaluate a run on concrete inputs.\<close>

lemmas eval_defs =
  handle_stream_def handle_stream_to_yield_def handle_stream_from_yield_def
  handle_stream_except_def process_chunk_def on_text_def report_progress_def
  log_format_warning_def format_chunk_warning_def format_chunk_def format_chunk_try_def
  first_delta_def py_split_def isspace_def emit_def mutate_def set_status_def assign_stats_def
  new_StreamStats_def attempt_to_yield_def attempt_try_def on_success_def on_failure_def
  after_try_def attempt_step_def generate_code_with_explanation_def attempts.simps
  str_int_def str_nat.simps digit_def fragments_def word_count_def text_chunk_def
  example_config_def quiet_call_def failing_env_def streaming_env_def idle_state_def Let_def

text \<open>
  Claim C5. When the traversal of the stream raises an exception \<open>e\<close> other than a
  cancellation, be it while the stream is advanced or while an element is processed,
  \<open>handle_stream\<close> raises the \<open>StreamProcessError\<close> whose message is
  \<open>Error processing stream: \<close> followed by the message of \<open>e\<close>; the text accumulated so far
  is not returned.
\<close>

theorem stream_failure_wrapped:
  assumes "stream_loop c (cancelled_at ae) 0 stream g [] = (Some e, g1, full)"
    and "e \<noteq> CancelledError"
  shows "handle_stream c ae stream g =
     (Inl (StreamProcessError (''Error processing stream: '' @ str_exc e)), g1)"
  using assms handle_stream_loop_raises [of c ae stream g e g1 full] by simp

theorem stream_failure_wrapped_witness:
  "(\<exists>g1. stream_loop (quiet_call 3) (cancelled_at (streaming_env broken_stream)) 0 broken_stream
            idle_state [] = (Some (Exception ''connection reset''), g1, ''a'')
        \<and> Exception ''connection reset'' \<noteq> CancelledError
        \<and> handle_stream (quiet_call 3) (streaming_env broken_stream) broken_stream idle_state =
            (Inl (StreamProcessError ''Error processing stream: connection reset''), g1))
   \<and> (\<exists>g1. stream_loop fussy_call
            (cancelled_at (streaming_env (stream_of [text_chunk ''ok'', text_chunk ''boom''])))
            0 (stream_of [text_chunk ''ok'', text_chunk ''boom'']) idle_state [] =
            (Some (Exception ''callback failed''), g1, ''okboom'')
        \<and> Exception ''callback failed'' \<noteq> CancelledError
        \<and> handle_stream fussy_call
            (streaming_env (stream_of [text_chunk ''ok'', text_chunk ''boom'']))
            (stream_of [text_chunk ''ok'', text_chunk ''boom'']) idle_state =
            (Inl (StreamProcessError ''Error processing stream: callback failed''), g1))"
proof -
  have "\<exists>g1. stream_loop (quiet_call 3) (cancelled_at (streaming_env broken_stream)) 0
      broken_stream idle_state [] = (Some (Exception ''connection reset''), g1, ''a'')"
    by (simp add: eval_defs broken_stream_def)
  then obtain g1 where a: "stream_loop (quiet_call 3) (cancelled_at (streaming_env broken_stream))
      0 broken_stream idle_state [] = (Some (Exception ''connection reset''), g1, ''a'')" ..
  have a': "Exception ''connection reset'' \<noteq> CancelledError" by simp
  have "\<exists>g1. stream_loop fussy_call
      (cancelled_at (streaming_env (stream_of [text_chunk ''ok'', text_chunk ''boom''])))
      0 (stream_of [text_chunk ''ok'', text_chunk ''boom'']) idle_state [] =
      (Some (Exception ''callback failed''), g1, ''okboom'')"
    by (simp add: eval_defs fussy_call_def)
  then obtain g2 where b: "stream_loop fussy_call
      (cancelled_at (streaming_env (stream_of [text_chunk ''ok'', text_chunk ''boom''])))
      0 (stream_of [text_chunk ''ok'', text_chunk ''boom'']) idle_state [] =
      (Some (Exception ''callback failed''), g2, ''okboom'')" ..
  have b': "Exception ''callback failed'' \<noteq> CancelledError" by simp
  from stream_failure_wrapped [OF a a'] stream_failure_wrapped [OF b b'] a b
  show ?thesis by auto
qed

text \<open>
  Claim C2, amended. When \<open>handle_stream\<close> consumes a finite chunk sequence to its end and
  returns, it has called the chunk callback exactly once for each chunk whose extracted
  text is not empty, in the order of the stream, it returns the concatenation of these
  fragments, \<open>chunks_processed\<close> has grown by the number of these calls, \<open>total_tokens\<close> has
  grown by the sum of the word counts of these fragments, and the status is \<open>COMPLETED\<close>.
  The two counters end equal to the number of calls and to the sum of the word counts
  when they are zero at entry, which is the case in the first attempt of a call.
\<close>

theorem handle_stream_completes:
  assumes "handle_stream c ae (stream_of cs) g = (Inr final_response, g')"
  shows "final_response = concat (fragments cs)
       \<and> delivered (trace g') = delivered (trace g) @ fragments cs
       \<and> chunks_processed (self_stats g') =
           chunks_processed (self_stats g) + int (length (fragments cs))
       \<and> total_tokens (self_stats g') =
           total_tokens (self_stats g) + sum_list (map word_count (fragments cs))
       \<and> status (self_stats g') = COMPLETED"
proof -
  from assms obtain g1 where
    sl: "stream_loop c (cancelled_at ae) 0 (stream_of cs) g [] = (None, g1, final_response)"
    and rp: "report_progress c (set_status COMPLETED (emit YieldSleep g1)) = (None, g')"
    by (rule handle_stream_returns)
  from rp have "delivered (trace g') = delivered (trace g1)"
    "self_stats g' = (self_stats g1)\<lparr>status := COMPLETED\<rparr>"
    by (auto simp: report_progress_def set_status_def split: option.splits)
  with stream_loop_complete [OF sl] show ?thesis by simp
qed

theorem handle_stream_completes_witness:
  "\<exists>g'. handle_stream (quiet_call 3) (streaming_env (stream_of scenario_chunks))
           (stream_of scenario_chunks) idle_state = (Inr ''def add(aOkay, c... urn a+b'', g')
        \<and> delivered (trace g') = [''def add(a'', ''Okay, c'', ''... urn a+b'']
        \<and> chunks_processed (self_stats g') = 3
        \<and> total_tokens (self_stats g') = 7
        \<and> status (self_stats g') = COMPLETED"
proof -
  have "\<exists>g'. handle_stream (quiet_call 3) (streaming_env (stream_of scenario_chunks))
      (stream_of scenario_chunks) idle_state = (Inr ''def add(aOkay, c... urn a+b'', g')"
    by (simp add: eval_defs scenario_chunks_def)
  then obtain g' where run: "handle_stream (quiet_call 3)
      (streaming_env (stream_of scenario_chunks)) (stream_of scenario_chunks) idle_state =
      (Inr ''def add(aOkay, c... urn a+b'', g')" ..
  have "fragments scenario_chunks = [''def add(a'', ''Okay, c'', ''... urn a+b'']"
    by (simp add: eval_defs scenario_chunks_def)
  moreover have "sum_list (map word_count [''def add(a'', ''Okay, c'', ''... urn a+b'']) = 7"
    by (simp add: eval_defs)
  ultimately show ?thesis
    using handle_stream_completes [OF run] run by (simp add: idle_state_def new_StreamStats_def)
qed

text \<open>
  The claim as it is stated fails in a retried call. In the run \<open>retry_world\<close> the first
  attempt delivers one fragment before its stream fails, so the second attempt starts
  with both counters at 1. There \<open>handle_stream\<close> consumes one chunk to completion, calls
  the callback once with a fragment of one word and returns it, and both counters end
  at 2; the call returns the text of one fragment with statistics that count two.
\<close>

theorem handle_stream_completes_counterexample:
  "map_option self_stats
     (state_before_attempt (quiet_call 3) example_config (attempt_envs retry_world)
        (assign_stats (new_StreamStats (clock_start retry_world)) idle_state) 1) =
     Some \<lparr>start_time = 0, chunks_processed = 1, total_tokens = 1, status = ERROR\<rparr>
   \<and> fst (handle_stream (quiet_call 3) (streaming_env (stream_of [text_chunk ''b'']))
          (stream_of [text_chunk ''b'']) resumed_state) = Inr ''b''
   \<and> delivered (trace (snd (handle_stream (quiet_call 3)
          (streaming_env (stream_of [text_chunk ''b''])) (stream_of [text_chunk ''b''])
          resumed_state))) = [''b'']
   \<and> chunks_processed (self_stats (snd (handle_stream (quiet_call 3)
          (streaming_env (stream_of [text_chunk ''b''])) (stream_of [text_chunk ''b''])
          resumed_state))) = 2
   \<and> total_tokens (self_stats (snd (handle_stream (quiet_call 3)
          (streaming_env (stream_of [text_chunk ''b''])) (stream_of [text_chunk ''b''])
          resumed_state))) = 2
   \<and> fst (generate_code_with_explanation (quiet_call 3) example_config retry_world idle_state) =
       Returned (Some \<lparr>res_text = ''b'',
                        res_stats = \<lparr>start_time = 0, chunks_processed = 2, total_tokens = 2,
                                      status = COMPLETED\<rparr>,
                        res_completion_time = 0\<rparr>)"
  by (simp add: eval_defs retry_world_def broken_stream_def resumed_state_def One_nat_def)

text \<open>
  Claim C8. When \<open>handle_stream\<close> consumes a chunk sequence of length \<open>n\<close> to its end and
  returns, a progress callback that is supplied has been called \<open>n + 1\<close> times: once for
  each chunk, with or without text, and once more after the stream has ended, this last
  time with the status \<open>COMPLETED\<close>; the earlier calls see the status of the entry.
\<close>

theorem progress_reported:
  assumes "handle_stream c ae (stream_of cs) g = (Inr final_response, g')"
    and "progress_callback c = Some p"
  shows "\<exists>R. progress_reports (trace g') = progress_reports (trace g) @ R
       \<and> length R = length cs + 1
       \<and> status (last R) = COMPLETED
       \<and> list_all (\<lambda>s. status s = status (self_stats g)) (butlast R)"
proof -
  from assms(1) obtain g1 where
    sl: "stream_loop c (cancelled_at ae) 0 (stream_of cs) g [] = (None, g1, final_response)"
    and rp: "report_progress c (set_status COMPLETED (emit YieldSleep g1)) = (None, g')"
    by (rule handle_stream_returns)
  from stream_loop_complete [OF sl] assms(2) obtain R where
    R: "progress_reports (trace g1) = progress_reports (trace g) @ R" "length R = length cs"
      "list_all (\<lambda>s. status s = status (self_stats g)) R"
    by auto
  from rp assms(2) have "progress_reports (trace g') =
      progress_reports (trace g1) @ [(self_stats g1)\<lparr>status := COMPLETED\<rparr>]"
    by (auto simp: report_progress_def set_status_def)
  with R have "progress_reports (trace g') =
      progress_reports (trace g) @ (R @ [(self_stats g1)\<lparr>status := COMPLETED\<rparr>])
    \<and> length (R @ [(self_stats g1)\<lparr>status := COMPLETED\<rparr>]) = length cs + 1
    \<and> status (last (R @ [(self_stats g1)\<lparr>status := COMPLETED\<rparr>])) = COMPLETED
    \<and> list_all (\<lambda>s. status s = status (self_stats g))
        (butlast (R @ [(self_stats g1)\<lparr>status := COMPLETED\<rparr>]))"
    by simp
  then show ?thesis by blast
qed

theorem progress_reported_witness:
  "\<exists>g' R. handle_stream (quiet_call 3)
           (streaming_env (stream_of [text_chunk ''def add(a'', Chunk None, text_chunk []]))
           (stream_of [text_chunk ''def add(a'', Chunk None, text_chunk []]) idle_state =
           (Inr ''def add(a'', g')
        \<and> progress_callback (quiet_call 3) = Some (\<lambda>s. None)
        \<and> progress_reports (trace g') = R
        \<and> length R = 4
        \<and> status (last R) = COMPLETED
        \<and> list_all (\<lambda>s. status s = INITIALIZING) (butlast R)"
proof -
  have "\<exists>g'. handle_stream (quiet_call 3)
      (streaming_env (stream_of [text_chunk ''def add(a'', Chunk None, text_chunk []]))
      (stream_of [text_chunk ''def add(a'', Chunk None, text_chunk []]) idle_state =
      (Inr ''def add(a'', g')"
    by (simp add: eval_defs)
  then obtain g' where run: "handle_stream (quiet_call 3)
      (streaming_env (stream_of [text_chunk ''def add(a'', Chunk None, text_chunk []]))
      (stream_of [text_chunk ''def add(a'', Chunk None, text_chunk []]) idle_state =
      (Inr ''def add(a'', g')" ..
  have p: "progress_callback (quiet_call 3) = Some (\<lambda>s. None)" by (simp add: quiet_call_def)
  from progress_reported [OF run p] run p show ?thesis
    by (auto simp: idle_state_def new_StreamStats_def)
qed

section \<open>Cancellation\<close>

lemma process_chunk_no_raise:
  assumes "format_chunk chunk \<noteq> [] \<longrightarrow> callback c (format_chunk chunk) = None"
    and "\<forall>p s. progress_callback c = Some p \<longrightarrow> p s = None"
  shows "\<exists>g1 full1. process_chunk c chunk g full = (None, g1, full1)"
  using assms
  by (auto simp: process_chunk_def on_text_def report_progress_def Let_def
      split: option.splits)

text \<open>
  The loop of a running task: no check of line 155 fires, so with callbacks that do not
  raise it consumes the whole chunk sequence.
\<close>

lemma stream_loop_runs_through:
  assumes running: "\<forall>k. \<not> cancelled k"
    and "\<forall>f \<in> set (fragments cs). callback c f = None"
    and quiet: "\<forall>p s. progress_callback c = Some p \<longrightarrow> p s = None"
  shows "\<exists>g' full'. stream_loop c cancelled i (stream_of cs) g full = (None, g', full')"
  using assms(2)
proof (induction cs arbitrary: i g full)
  case Nil
  then show ?case by simp
next
  case (Cons chunk cs)
  from Cons.prems
  have "format_chunk chunk \<noteq> [] \<longrightarrow> callback c (format_chunk chunk) = None"
    by simp
  with quiet obtain g1 full1 where
    pc: "process_chunk c chunk g full = (None, g1, full1)"
    using process_chunk_no_raise [of chunk c g full] by blast
  from Cons.prems have "\<forall>f \<in> set (fragments cs). callback c f = None"
    by (simp split: if_splits)
  from Cons.IH [OF this, of "Suc i" g1 full1] running pc show ?case by simp
qed

lemma attempt_try_handle_stream:
  "attempt_try c cfg ae g =
     (case create_result ae of
        Inl e \<Rightarrow> (Inl e, emit (Create (make_request cfg (prompt c))) (set_status PROCESSING g))
      | Inr stream \<Rightarrow>
          handle_stream c ae stream
            (emit (Create (make_request cfg (prompt c))) (set_status PROCESSING g)))"
  by (simp add: attempt_try_def attempt_to_yield_def handle_stream_def Let_def split: sum.splits)

text \<open>
  Claim C4 fails on the code. The claim is that a cancellation signalled after chunk
  \<open>i\<close> of \<open>n\<close> stops the call there, after \<open>i\<close> calls of the chunk callback, and line 155 is
  written to do so. But the check asks the running task whether it is cancelled, the
  answer is \<open>False\<close> as long as the task runs, and the loop has no \<open>await\<close>: whenever the
  cancellation is requested during the loop, the call consumes all \<open>n\<close> chunks, delivers
  every fragment, and raises the cancellation at the sleep of line 177. What the claim
  says of the propagation holds at both \<open>await\<close> expressions, in every attempt: the
  \<open>CancelledError\<close> leaves the call as it is, nothing is logged as a failure, the status
  is not set to \<open>ERROR\<close> by it, and no sleep or attempt follows. At line 128 the
  cancellation ends the sleep that was just requested.
\<close>

theorem cancellation_waits_for_await:
  "(state_before_attempt c cfg (attempt_envs w)
        (assign_stats (new_StreamStats (clock_start w)) g) a = Some ga
     \<and> create_result (attempt_envs w a) = Inr (stream_of cs)
     \<and> (\<forall>k. \<not> cancelled_at (attempt_envs w a) k)
     \<and> yield_cancelled (attempt_envs w a)
     \<and> (\<forall>f \<in> set (fragments cs). callback c f = None)
     \<and> (\<forall>p s. progress_callback c = Some p \<longrightarrow> p s = None)
    \<longrightarrow> (\<exists>g'. generate_code_with_explanation c cfg w g = (Raised CancelledError, g')
          \<and> delivered (trace g') = delivered (trace ga) @ fragments cs
          \<and> last (trace g') = WarnCancelled
          \<and> status (self_stats g') = PROCESSING
          \<and> error_logs (trace g') = error_logs (trace ga)
          \<and> backoffs (trace g') = backoffs (trace ga)
          \<and> requests (trace g') = requests (trace ga) @ [make_request cfg (prompt c)]))
   \<and> (state_before_attempt c cfg (attempt_envs w)
        (assign_stats (new_StreamStats (clock_start w)) g) a = Some ga
     \<and> attempt_try c cfg (attempt_envs w a) ga = (Inl e, g1)
     \<and> is_Exception e
     \<and> int a < max_retries c - 1
     \<and> backoff_cancelled (attempt_envs w a)
    \<longrightarrow> generate_code_with_explanation c cfg w g =
          (Raised CancelledError,
           emit (Backoff (min (2 ^ a) 10))
             (emit (LogError (''Attempt '' @ str_int (int a + 1) @ '' failed: '' @ str_exc e))
               (set_status ERROR g1))))"
proof (intro conjI impI)
  define g0 where "g0 = assign_stats (new_StreamStats (clock_start w)) g"
  let ?ae = "attempt_envs w a"
  assume h: "state_before_attempt c cfg (attempt_envs w)
        (assign_stats (new_StreamStats (clock_start w)) g) a = Some ga
     \<and> create_result (attempt_envs w a) = Inr (stream_of cs)
     \<and> (\<forall>k. \<not> cancelled_at (attempt_envs w a) k)
     \<and> yield_cancelled (attempt_envs w a)
     \<and> (\<forall>f \<in> set (fragments cs). callback c f = None)
     \<and> (\<forall>p s. progress_callback c = Some p \<longrightarrow> p s = None)"
  then have at: "state_before_attempt c cfg (attempt_envs w) g0 a = Some ga"
    and open_ok: "create_result ?ae = Inr (stream_of cs)"
    and running: "\<forall>k. \<not> cancelled_at ?ae k"
    and cancelled: "yield_cancelled ?ae"
    and q: "\<forall>f \<in> set (fragments cs). callback c f = None"
    and qp: "\<forall>p s. progress_callback c = Some p \<longrightarrow> p s = None"
    by (simp_all add: g0_def)
  define g2 where "g2 = emit (Create (make_request cfg (prompt c))) (set_status PROCESSING ga)"
  from stream_loop_runs_through [OF running q qp, of 0 g2 "[]"] obtain g3 full where
    sl: "stream_loop c (cancelled_at ?ae) 0 (stream_of cs) g2 [] = (None, g3, full)"
    by blast
  note whole = stream_loop_complete [OF sl] and quiet = stream_loop_quiet [OF sl]
  define g4 where "g4 = emit WarnCancelled (emit YieldSleep g3)"
  from handle_stream_loop_completes [OF sl] cancelled
  have "handle_stream c ?ae (stream_of cs) g2 = (Inl CancelledError, g4)"
    by (simp add: g4_def)
  with open_ok have ty: "attempt_try c cfg ?ae ga = (Inl CancelledError, g4)"
    by (simp add: attempt_try_handle_stream g2_def)
  from attempt_step_passes_cancellation [OF ty] state_before_attempt_less [OF at]
  have "attempts c cfg (attempt_envs w) a ga = (Raised CancelledError, g4)"
    by (simp add: attempts.simps [of c cfg "attempt_envs w" a ga])
  with attempts_from_state_before_attempt [OF at]
  have run: "generate_code_with_explanation c cfg w g = (Raised CancelledError, g4)"
    by (simp add: generate_code_with_explanation_def g0_def)
  from whole quiet show "\<exists>g'. generate_code_with_explanation c cfg w g = (Raised CancelledError, g')
          \<and> delivered (trace g') = delivered (trace ga) @ fragments cs
          \<and> last (trace g') = WarnCancelled
          \<and> status (self_stats g') = PROCESSING
          \<and> error_logs (trace g') = error_logs (trace ga)
          \<and> backoffs (trace g') = backoffs (trace ga)
          \<and> requests (trace g') = requests (trace ga) @ [make_request cfg (prompt c)]"
    unfolding run by (simp add: g4_def g2_def set_status_def)
next
  define g0 where "g0 = assign_stats (new_StreamStats (clock_start w)) g"
  let ?ae = "attempt_envs w a"
  assume h: "state_before_attempt c cfg (attempt_envs w)
        (assign_stats (new_StreamStats (clock_start w)) g) a = Some ga
     \<and> attempt_try c cfg (attempt_envs w a) ga = (Inl e, g1)
     \<and> is_Exception e
     \<and> int a < max_retries c - 1
     \<and> backoff_cancelled (attempt_envs w a)"
  then have at: "state_before_attempt c cfg (attempt_envs w) g0 a = Some ga"
    and ty: "attempt_try c cfg ?ae ga = (Inl e, g1)" and e: "is_Exception e"
    and nl: "int a \<noteq> max_retries c - 1" and cancelled: "backoff_cancelled ?ae"
    by (simp_all add: g0_def)
  from attempt_step_retry [OF ty e nl] cancelled state_before_attempt_less [OF at]
  have "attempts c cfg (attempt_envs w) a ga =
      (Raised CancelledError,
       emit (Backoff (min (2 ^ a) 10))
         (emit (LogError (''Attempt '' @ str_int (int a + 1) @ '' failed: '' @ str_exc e))
           (set_status ERROR g1)))"
    by (simp add: attempts.simps [of c cfg "attempt_envs w" a ga])
  with attempts_from_state_before_attempt [OF at]
  show "generate_code_with_explanation c cfg w g =
      (Raised CancelledError,
       emit (Backoff (min (2 ^ a) 10))
         (emit (LogError (''Attempt '' @ str_int (int a + 1) @ '' failed: '' @ str_exc e))
           (set_status ERROR g1)))"
    by (simp add: generate_code_with_explanation_def g0_def)
qed

text \<open>
  The failing input: three chunks with text, and a cancellation requested during the
  loop, say after the first chunk. The callback is called for all three fragments. The
  second instance is a cancellation during the first backoff sleep.
\<close>

theorem cancellation_waits_for_await_witness:
  "(\<forall>k. \<not> cancelled_at (cancelled_in_loop_env (stream_of scenario_chunks)) k)
   \<and> yield_cancelled (cancelled_in_loop_env (stream_of scenario_chunks))
   \<and> (\<forall>f. callback (quiet_call 3) f = None)
   \<and> (\<exists>g'. generate_code_with_explanation (quiet_call 3) example_config
              \<lparr>clock_start = 0,
                 attempt_envs = (\<lambda>k. cancelled_in_loop_env (stream_of scenario_chunks))\<rparr>
              idle_state = (Raised CancelledError, g')
          \<and> delivered (trace g') = [''def add(a'', ''Okay, c'', ''... urn a+b'']
          \<and> last (trace g') = WarnCancelled
          \<and> status (self_stats g') = PROCESSING
          \<and> error_logs (trace g') = []
          \<and> backoffs (trace g') = []
          \<and> requests (trace g') = [make_request example_config ''add two numbers''])
   \<and> backoff_cancelled (cancelled_in_backoff_env ''timeout'')
   \<and> fst (generate_code_with_explanation (quiet_call 3) example_config
             \<lparr>clock_start = 0, attempt_envs = (\<lambda>k. cancelled_in_backoff_env ''timeout'')\<rparr>
             idle_state) = Raised CancelledError
   \<and> pacing (trace (snd (generate_code_with_explanation (quiet_call 3) example_config
             \<lparr>clock_start = 0, attempt_envs = (\<lambda>k. cancelled_in_backoff_env ''timeout'')\<rparr>
             idle_state))) = [None, Some 1]
   \<and> error_logs (trace (snd (generate_code_with_explanation (quiet_call 3) example_config
             \<lparr>clock_start = 0, attempt_envs = (\<lambda>k. cancelled_in_backoff_env ''timeout'')\<rparr>
             idle_state))) = [''Attempt 1 failed: timeout'']"
proof -
  let ?w = "\<lparr>clock_start = 0,
             attempt_envs = (\<lambda>k. cancelled_in_loop_env (stream_of scenario_chunks))\<rparr>"
  let ?v = "\<lparr>clock_start = 0, attempt_envs = (\<lambda>k. cancelled_in_backoff_env ''timeout'')\<rparr>"
  let ?g0 = "assign_stats (new_StreamStats 0) idle_state"
  let ?g1 = "emit (Create (make_request example_config ''add two numbers''))
               (set_status PROCESSING ?g0)"
  have running: "\<forall>k. \<not> cancelled_at (cancelled_in_loop_env (stream_of scenario_chunks)) k"
    and cancelled: "yield_cancelled (cancelled_in_loop_env (stream_of scenario_chunks))"
    and q: "\<forall>f. callback (quiet_call 3) f = None"
    and b: "backoff_cancelled (cancelled_in_backoff_env ''timeout'')"
    by (simp_all add: cancelled_in_loop_env_def cancelled_in_backoff_env_def quiet_call_def)
  have fr: "fragments scenario_chunks = [''def add(a'', ''Okay, c'', ''... urn a+b'']"
    by (simp add: eval_defs scenario_chunks_def)
  have "state_before_attempt (quiet_call 3) example_config (attempt_envs ?w)
          (assign_stats (new_StreamStats (clock_start ?w)) idle_state) 0 = Some ?g0
     \<and> create_result (attempt_envs ?w 0) = Inr (stream_of scenario_chunks)
     \<and> (\<forall>k. \<not> cancelled_at (attempt_envs ?w 0) k)
     \<and> yield_cancelled (attempt_envs ?w 0)
     \<and> (\<forall>f \<in> set (fragments scenario_chunks). callback (quiet_call 3) f = None)
     \<and> (\<forall>p s. progress_callback (quiet_call 3) = Some p \<longrightarrow> p s = None)"
    by (simp add: cancelled_in_loop_env_def quiet_call_def)
  with cancellation_waits_for_await [of "quiet_call 3" example_config ?w idle_state 0 ?g0
      scenario_chunks] fr
  have first: "\<exists>g'. generate_code_with_explanation (quiet_call 3) example_config ?w idle_state =
            (Raised CancelledError, g')
          \<and> delivered (trace g') = [''def add(a'', ''Okay, c'', ''... urn a+b'']
          \<and> last (trace g') = WarnCancelled
          \<and> status (self_stats g') = PROCESSING
          \<and> error_logs (trace g') = []
          \<and> backoffs (trace g') = []
          \<and> requests (trace g') = [make_request example_config ''add two numbers'']"
    by (simp add: idle_state_def quiet_call_def)
  have "state_before_attempt (quiet_call 3) example_config (attempt_envs ?v)
          (assign_stats (new_StreamStats (clock_start ?v)) idle_state) 0 = Some ?g0
     \<and> attempt_try (quiet_call 3) example_config (attempt_envs ?v 0) ?g0 =
          (Inl (Exception ''timeout''), ?g1)
     \<and> is_Exception (Exception ''timeout'')
     \<and> int 0 < max_retries (quiet_call 3) - 1
     \<and> backoff_cancelled (attempt_envs ?v 0)"
    by (simp add: attempt_try_def attempt_to_yield_def cancelled_in_backoff_env_def
        quiet_call_def Let_def)
  with cancellation_waits_for_await [of "quiet_call 3" example_config ?v idle_state 0 ?g0
      _ "Exception ''timeout''" ?g1]
  have "generate_code_with_explanation (quiet_call 3) example_config ?v idle_state =
      (Raised CancelledError,
       emit (Backoff (min (2 ^ 0) 10))
         (emit (LogError (''Attempt '' @ str_int (int 0 + 1) @ '' failed: ''
                          @ str_exc (Exception ''timeout'')))
           (set_status ERROR ?g1)))"
    by blast
  then have second:
    "fst (generate_code_with_explanation (quiet_call 3) example_config ?v idle_state) =
       Raised CancelledError"
    "pacing (trace (snd (generate_code_with_explanation (quiet_call 3) example_config ?v
       idle_state))) = [None, Some 1]"
    "error_logs (trace (snd (generate_code_with_explanation (quiet_call 3) example_config ?v
       idle_state))) = [''Attempt 1 failed: timeout'']"
    by (simp_all add: idle_state_def set_status_def str_int_def str_nat.simps digit_def)
  from first second running cancelled q b show ?thesis by blast
qed

section \<open>Statistics accumulate, the status takes its steps\<close>

lemma history_step_refl: "history_step P g g"
  by (simp add: history_step_def)

lemma history_step_trans:
  assumes "history_step P g g1" and "history_step P g1 g2"
  shows "history_step P g g2"
proof -
  from assms(1) obtain W1 where 1: "writes (trace g1) = writes (trace g) @ W1"
    "successively P (self_stats g # W1)" "self_stats g1 = last (self_stats g # W1)"
    unfolding history_step_def by blast
  from assms(2) obtain W2 where 2: "writes (trace g2) = writes (trace g1) @ W2"
    "successively P (self_stats g1 # W2)" "self_stats g2 = last (self_stats g1 # W2)"
    unfolding history_step_def by blast
  have "writes (trace g2) = writes (trace g) @ (W1 @ W2)" using 1(1) 2(1) by simp
  moreover have "successively P (self_stats g # (W1 @ W2))"
    using 1(2,3) 2(2) successively_append_iff [of P "self_stats g # W1" W2]
    by (auto simp: successively_Cons)
  moreover have "self_stats g2 = last (self_stats g # (W1 @ W2))"
    using 1(3) 2(3) by simp
  ultimately show ?thesis unfolding history_step_def by blast
qed

lemma history_step_emit:
  assumes "write_of ev = []"
  shows "history_step P g (emit ev g)"
  using assms by (simp add: history_step_def)

lemma history_step_mutate:
  assumes "P (self_stats g) (f (self_stats g))"
  shows "history_step P g (mutate f g)"
  using assms by (simp add: history_step_def)

lemma moves_set_final:
  assumes "status (self_stats g) = PROCESSING \<or> status (self_stats g) = COMPLETED"
    and "st = COMPLETED \<or> st = ERROR"
  shows "history_step moves g (set_status st g)"
  unfolding set_status_def
  by (rule history_step_mutate) (use assms in \<open>auto simp: moves_def accumulates_def\<close>)

lemma on_text_history:
  assumes "on_text c f g full = (r, g', full')" and "status (self_stats g) = PROCESSING"
  shows "history_step moves g g' \<and> status (self_stats g') = PROCESSING"
proof -
  define g1 where "g1 = mutate (\<lambda>s. s\<lparr>chunks_processed := chunks_processed s + 1\<rparr>) g"
  define g2 where
    "g2 = mutate (\<lambda>s. s\<lparr>total_tokens := total_tokens s + int (length (py_split f))\<rparr>) g1"
  have "history_step moves g g1" unfolding g1_def
    by (rule history_step_mutate) (simp add: moves_def accumulates_def assms(2))
  moreover have "history_step moves g1 g2" unfolding g2_def
    by (rule history_step_mutate) (simp add: moves_def accumulates_def g1_def assms(2))
  moreover have "history_step moves g2 (emit (OnChunk f) g2)"
    by (rule history_step_emit) simp
  moreover from assms(1) have g': "g' = emit (OnChunk f) g2"
    by (simp add: on_text_def g1_def g2_def Let_def)
  ultimately have "history_step moves g g'" by (blast intro: history_step_trans)
  moreover from g' assms(2) have "status (self_stats g') = PROCESSING"
    by (simp add: g1_def g2_def)
  ultimately show ?thesis by simp
qed

lemma report_progress_history:
  assumes "report_progress c g = (r, g')"
  shows "history_step P g g' \<and> self_stats g' = self_stats g"
  using assms
  by (auto simp: report_progress_def history_step_refl history_step_emit split: option.splits)

lemma log_format_warning_history:
  "history_step P g (log_format_warning chunk g)
   \<and> self_stats (log_format_warning chunk g) = self_stats g"
  by (simp add: log_format_warning_def history_step_refl history_step_emit split: option.splits)

lemma process_chunk_history:
  assumes "process_chunk c chunk g full = (r, g', full')"
    and "status (self_stats g) = PROCESSING"
  shows "history_step moves g g' \<and> status (self_stats g') = PROCESSING"
proof -
  let ?g1 = "log_format_warning chunk g"
  have 1: "history_step moves g ?g1" "status (self_stats ?g1) = PROCESSING"
    using log_format_warning_history [of moves g chunk] assms(2) by simp_all
  obtain r2 g2 full2 where t: "(if format_chunk chunk \<noteq> []
      then on_text c (format_chunk chunk) ?g1 full else (None, ?g1, full)) = (r2, g2, full2)"
    by (cases "if format_chunk chunk \<noteq> []
      then on_text c (format_chunk chunk) ?g1 full else (None, ?g1, full)") auto
  have 2: "history_step moves ?g1 g2 \<and> status (self_stats g2) = PROCESSING"
  proof (cases "format_chunk chunk \<noteq> []")
    case True
    with t have "on_text c (format_chunk chunk) ?g1 full = (r2, g2, full2)" by simp
    from on_text_history [OF this 1(2)] show ?thesis .
  next
    case False
    with t 1(2) show ?thesis by (simp add: history_step_refl)
  qed
  show ?thesis
  proof (cases r2)
    case (Some e)
    with assms(1) t have "g' = g2" by (simp add: process_chunk_def Let_def)
    with 1 2 show ?thesis by (blast intro: history_step_trans)
  next
    case None
    obtain r3 g3 where rp: "report_progress c g2 = (r3, g3)"
      by (cases "report_progress c g2") auto
    with None assms(1) t have "g' = g3" by (simp add: process_chunk_def Let_def)
    with 1 2 report_progress_history [OF rp, of moves] show ?thesis
      by (auto intro: history_step_trans)
  qed
qed

lemma stream_loop_history:
  assumes "stream_loop c cancelled i stream g full = (r, g', full')"
    and "status (self_stats g) = PROCESSING"
  shows "history_step moves g g' \<and> status (self_stats g') = PROCESSING"
  using assms
proof (induction stream arbitrary: i g full)
  case StopIteration
  then show ?case by (simp add: history_step_refl)
next
  case (Throw e)
  then show ?case by (simp add: history_step_refl)
next
  case (Next chunk rest)
  show ?case
  proof (cases "cancelled i")
    case True
    with Next.prems show ?thesis by (simp add: history_step_refl)
  next
    case False
    obtain r1 g1 full1 where pc: "process_chunk c chunk g full = (r1, g1, full1)"
      by (cases "process_chunk c chunk g full") auto
    note h1 = process_chunk_history [OF pc Next.prems(2)]
    show ?thesis
    proof (cases r1)
      case None
      with Next.prems(1) False pc
      have "stream_loop c cancelled (Suc i) rest g1 full1 = (r, g', full')" by simp
      from Next.IH [OF this] h1 show ?thesis by (blast intro: history_step_trans)
    next
      case (Some e)
      with Next.prems(1) False pc have "g' = g1" by simp
      with h1 show ?thesis by simp
    qed
  qed
qed

lemma handle_stream_except_history:
  assumes "handle_stream_except e g = (e', g')"
  shows "history_step P g g' \<and> self_stats g' = self_stats g"
  using assms
  by (auto simp: handle_stream_except_def history_step_refl history_step_emit split: if_splits)

lemma handle_stream_to_yield_history:
  assumes "handle_stream_to_yield c ae stream g = (r, g')"
    and "status (self_stats g) = PROCESSING"
  shows "history_step moves g g' \<and> status (self_stats g') = PROCESSING"
proof -
  obtain r1 g1 full1 where sl: "stream_loop c (cancelled_at ae) 0 stream g [] = (r1, g1, full1)"
    by (cases "stream_loop c (cancelled_at ae) 0 stream g []") auto
  note h = stream_loop_history [OF sl assms(2)]
  show ?thesis
  proof (cases r1)
    case None
    with assms(1) sl have "g' = emit YieldSleep g1" by (simp add: handle_stream_to_yield_def)
    moreover have "history_step moves g1 (emit YieldSleep g1)"
      by (rule history_step_emit) simp
    ultimately show ?thesis using h by (auto intro: history_step_trans)
  next
    case (Some e)
    obtain e' g2 where ex: "handle_stream_except e g1 = (e', g2)"
      by (cases "handle_stream_except e g1") auto
    with assms(1) sl Some have "g' = g2" by (simp add: handle_stream_to_yield_def)
    with h handle_stream_except_history [OF ex, of moves] show ?thesis
      by (auto intro: history_step_trans)
  qed
qed

lemma handle_stream_from_yield_history:
  assumes "handle_stream_from_yield c cancelled full g = (r, g')"
    and "status (self_stats g) = PROCESSING"
  shows "history_step moves g g'
       \<and> (status (self_stats g') = PROCESSING \<or> status (self_stats g') = COMPLETED)"
proof (cases cancelled)
  case True
  obtain e' g1 where ex: "handle_stream_except CancelledError g = (e', g1)"
    by (cases "handle_stream_except CancelledError g") auto
  with True assms(1) have "g' = g1" by (simp add: handle_stream_from_yield_def)
  with handle_stream_except_history [OF ex, of moves] assms(2) show ?thesis by simp
next
  case False
  obtain r1 g1 where rp: "report_progress c (set_status COMPLETED g) = (r1, g1)"
    by (cases "report_progress c (set_status COMPLETED g)") auto
  with False assms(1) have "g' = g1"
    by (auto simp: handle_stream_from_yield_def Let_def split: option.splits)
  moreover from assms(2) have "history_step moves g (set_status COMPLETED g)"
    by (simp add: moves_set_final)
  moreover have "status (self_stats (set_status COMPLETED g)) = COMPLETED"
    by (simp add: set_status_def)
  ultimately show ?thesis using report_progress_history [OF rp, of moves]
    by (auto intro: history_step_trans)
qed

text \<open>
  The body of an attempt: after the write of line 89 every write makes one of the steps,
  and the body ends with the status \<open>PROCESSING\<close> or \<open>COMPLETED\<close>.
\<close>

lemma attempt_try_history:
  assumes "attempt_try c cfg ae g = (r, g')"
  shows "history_step moves (set_status PROCESSING g) g'
       \<and> (status (self_stats g') = PROCESSING \<or> status (self_stats g') = COMPLETED)"
proof -
  define g2 where "g2 = emit (Create (make_request cfg (prompt c))) (set_status PROCESSING g)"
  have 0: "history_step moves (set_status PROCESSING g) g2"
    unfolding g2_def by (rule history_step_emit) simp
  have s2: "status (self_stats g2) = PROCESSING" by (simp add: g2_def set_status_def)
  obtain r1 g1 where ty: "attempt_to_yield c cfg ae g = (r1, g1)"
    by (cases "attempt_to_yield c cfg ae g") auto
  have 1: "history_step moves g2 g1 \<and> status (self_stats g1) = PROCESSING"
  proof (cases "create_result ae")
    case (Inl e)
    with ty have "g1 = g2" by (simp add: attempt_to_yield_def g2_def Let_def)
    with s2 show ?thesis by (simp add: history_step_refl)
  next
    case (Inr stream)
    with ty have "handle_stream_to_yield c ae stream g2 = (r1, g1)"
      by (simp add: attempt_to_yield_def g2_def Let_def)
    from handle_stream_to_yield_history [OF this s2] show ?thesis .
  qed
  show ?thesis
  proof (cases r1)
    case (Inl e)
    with assms ty have "g' = g1" by (simp add: attempt_try_def)
    with 0 1 show ?thesis by (blast intro: history_step_trans)
  next
    case (Inr full)
    with assms ty have "handle_stream_from_yield c (yield_cancelled ae) full g1 = (r, g')"
      by (simp add: attempt_try_def)
    from handle_stream_from_yield_history [OF this] 0 1 show ?thesis
      by (blast intro: history_step_trans)
  qed
qed

lemma attempt_step_history:
  assumes "attempt_step c cfg ae a g = (ro, g')"
  shows "history_step moves (set_status PROCESSING g) g'
       \<and> (ro = None \<longrightarrow> status (self_stats g') = ERROR)"
proof -
  obtain r g1 where ty: "attempt_try c cfg ae g = (r, g1)"
    by (cases "attempt_try c cfg ae g") auto
  from attempt_try_history [OF ty]
  have h: "history_step moves (set_status PROCESSING g) g1"
    and live: "status (self_stats g1) = PROCESSING \<or> status (self_stats g1) = COMPLETED"
    by simp_all
  show ?thesis
  proof (cases r)
    case (Inr final_response)
    with ty assms attempt_step_success [of c cfg ae g final_response g1 a]
    have "g' = set_status COMPLETED g1" "ro \<noteq> None" by auto
    with h moves_set_final [OF live, of COMPLETED] show ?thesis
      by (blast intro: history_step_trans)
  next
    case (Inl e)
    show ?thesis
    proof (cases "is_Exception e")
      case False
      with Inl ty assms attempt_step_passes_cancellation [of c cfg ae g e g1 a]
      have "g' = g1" "ro \<noteq> None" by auto
      with h show ?thesis by auto
    next
      case True
      define g2 where "g2 = emit (LogError (''Attempt '' @ str_int (int a + 1) @ '' failed: ''
                 @ str_exc e)) (set_status ERROR g1)"
      have h2: "history_step moves g1 g2" unfolding g2_def
        using moves_set_final [OF live, of ERROR]
          history_step_emit [of "LogError (''Attempt '' @ str_int (int a + 1) @ '' failed: ''
                 @ str_exc e)" moves "set_status ERROR g1"]
        by (auto intro: history_step_trans)
      have s2: "status (self_stats g2) = ERROR" by (simp add: g2_def set_status_def)
      show ?thesis
      proof (cases "int a = max_retries c - 1")
        case last: True
        with True Inl ty assms attempt_step_last_failure [of c cfg ae g e g1 a]
        have "g' = g2" "ro \<noteq> None" by (auto simp: g2_def)
        with h h2 show ?thesis by (blast intro: history_step_trans)
      next
        case False
        with True Inl ty assms attempt_step_retry [of c cfg ae g e g1 a]
        have g': "g' = emit (Backoff (min (2 ^ a) 10)) g2" by (auto simp: g2_def)
        have "history_step moves g2 (emit (Backoff (min (2 ^ a) 10)) g2)"
          by (rule history_step_emit) simp
        with h h2 g' s2 show ?thesis by (auto intro: history_step_trans)
      qed
    qed
  qed
qed

lemma attempt_step_block:
  assumes "attempt_step c cfg ae a g = (ro, g')"
  shows "\<exists>W. writes (trace g') = writes (trace g) @ W
       \<and> attempt_block W
       \<and> successively accumulates (self_stats g # W)
       \<and> self_stats g' = last W
       \<and> (ro = None \<longrightarrow> status (last W) = ERROR)"
proof -
  let ?p = "(self_stats g)\<lparr>status := PROCESSING\<rparr>"
  from attempt_step_history [OF assms] obtain W' where
    w: "writes (trace g') = writes (trace (set_status PROCESSING g)) @ W'"
    and ch: "successively moves (self_stats (set_status PROCESSING g) # W')"
    and la: "self_stats g' = last (self_stats (set_status PROCESSING g) # W')"
    and er: "ro = None \<longrightarrow> status (self_stats g') = ERROR"
    unfolding history_step_def by blast
  have p: "self_stats (set_status PROCESSING g) = ?p" by (simp add: set_status_def)
  from w have "writes (trace g') = writes (trace g) @ (?p # W')"
    by (simp add: set_status_def)
  moreover from ch p have "successively (\<lambda>s s'. status_step (status s) (status s')) (?p # W')"
    by (auto intro: successively_mono simp: moves_def)
  then have "attempt_block (?p # W')" by (simp add: attempt_block_def)
  moreover from ch p have "successively accumulates (?p # W')"
    by (auto intro: successively_mono simp: moves_def)
  then have "successively accumulates (self_stats g # ?p # W')"
    by (simp add: accumulates_def)
  moreover from la p have "self_stats g' = last (?p # W')" by simp
  ultimately show ?thesis using er by metis
qed

text \<open>
  The writes of the loop fall into one block for each attempt made; an attempt that is
  followed by another one leaves the status \<open>ERROR\<close>.
\<close>

lemma attempts_blocks:
  assumes "attempts c cfg envs a g = (r, g')"
  shows "\<exists>Ws. writes (trace g') = writes (trace g) @ concat Ws
       \<and> list_all attempt_block Ws
       \<and> list_all (\<lambda>W. status (last W) = ERROR) (butlast Ws)
       \<and> successively accumulates (self_stats g # concat Ws)
       \<and> self_stats g' = last (self_stats g # concat Ws)
       \<and> length (requests (trace g')) = length (requests (trace g)) + length Ws
       \<and> created (trace g') = created (trace g)"
  using assms
proof (induction "nat (max_retries c - int a)" arbitrary: a g)
  case 0
  then have "\<not> int a < max_retries c" by simp
  with "0.prems" have "g' = g" by (simp add: attempts.simps)
  then have "writes (trace g') = writes (trace g) @ concat []
       \<and> list_all attempt_block []
       \<and> list_all (\<lambda>W. status (last W) = ERROR) (butlast [])
       \<and> successively accumulates (self_stats g # concat [])
       \<and> self_stats g' = last (self_stats g # concat [])
       \<and> length (requests (trace g')) = length (requests (trace g)) + length ([] :: StreamStats list list)
       \<and> created (trace g') = created (trace g)"
    by simp
  then show ?case by blast
next
  case (Suc n)
  then have lt: "int a < max_retries c" by simp
  obtain ro g1 where st: "attempt_step c cfg (envs a) a g = (ro, g1)"
    by (cases "attempt_step c cfg (envs a) a g") auto
  from attempt_step_block [OF st] obtain W where
    w: "writes (trace g1) = writes (trace g) @ W" and blk: "attempt_block W"
    and acc: "successively accumulates (self_stats g # W)"
    and la: "self_stats g1 = last W"
    and er: "ro = None \<longrightarrow> status (last W) = ERROR"
    by blast
  from blk have ne: "W \<noteq> []" by (simp add: attempt_block_def)
  note rq = attempt_step_trace(1) [OF st] and cr = attempt_step_trace(2) [OF st]
  show ?case
  proof (cases ro)
    case (Some out)
    with Suc.prems lt st have "g' = g1" by (simp add: attempts.simps)
    with w blk acc la ne rq cr have "writes (trace g') = writes (trace g) @ concat [W]
       \<and> list_all attempt_block [W]
       \<and> list_all (\<lambda>W. status (last W) = ERROR) (butlast [W])
       \<and> successively accumulates (self_stats g # concat [W])
       \<and> self_stats g' = last (self_stats g # concat [W])
       \<and> length (requests (trace g')) = length (requests (trace g)) + length [W]
       \<and> created (trace g') = created (trace g)"
      by simp
    then show ?thesis by blast
  next
    case None
    with Suc.prems lt st have rec: "attempts c cfg envs (Suc a) g1 = (r, g')"
      by (simp add: attempts.simps)
    from Suc.hyps(2) have "n = nat (max_retries c - int (Suc a))" by simp
    from Suc.hyps(1) [OF this rec] obtain Ws where ih:
      "writes (trace g') = writes (trace g1) @ concat Ws"
      "list_all attempt_block Ws"
      "list_all (\<lambda>W. status (last W) = ERROR) (butlast Ws)"
      "successively accumulates (self_stats g1 # concat Ws)"
      "self_stats g' = last (self_stats g1 # concat Ws)"
      "length (requests (trace g')) = length (requests (trace g1)) + length Ws"
      "created (trace g') = created (trace g1)"
      by blast
    have "writes (trace g') = writes (trace g) @ concat (W # Ws)"
      using ih(1) w by simp
    moreover have "list_all attempt_block (W # Ws)" using ih(2) blk by simp
    moreover have "list_all (\<lambda>W. status (last W) = ERROR) (butlast (W # Ws))"
      using ih(3) er None by simp
    moreover have "successively accumulates (self_stats g # concat (W # Ws))"
    proof -
      define T where "T = concat Ws"
      from ih(4) la have t: "successively accumulates (last W # T)" by (simp add: T_def)
      have "successively accumulates ((self_stats g # W) @ T)"
      proof (cases T)
        case Nil
        with acc show ?thesis by simp
      next
        case (Cons x xs)
        with t have "accumulates (last W) (hd T)" and "successively accumulates T"
          by simp_all
        with acc ne show ?thesis
          using successively_append_iff [of accumulates "self_stats g # W" T] by simp
      qed
      then show ?thesis by (simp add: T_def)
    qed
    moreover have "self_stats g' = last (self_stats g # concat (W # Ws))"
      using ih(5) la ne by simp
    moreover have "length (requests (trace g')) = length (requests (trace g)) + length (W # Ws)"
      using ih(6) rq by simp
    moreover have "created (trace g') = created (trace g)" using ih(7) cr by simp
    ultimately show ?thesis by blast
  qed
qed

text \<open>
  Claim C7, amended. In one call the \<open>StreamStats\<close> object is created once, before the
  first attempt, with the status \<open>INITIALIZING\<close>. Every later write keeps its start time
  and decreases neither \<open>chunks_processed\<close> nor \<open>total_tokens\<close>, also from one attempt to the
  next: the counters are not reset between attempts. The writes fall into one block
  for each attempt. Each block starts with the write that sets the status
  \<open>PROCESSING\<close>, and every attempt that is followed by another one has left the status
  \<open>ERROR\<close>. Inside a block the status only moves from \<open>PROCESSING\<close> to \<open>COMPLETED\<close>, from
  \<open>PROCESSING\<close> to \<open>ERROR\<close>, or from \<open>COMPLETED\<close> to \<open>ERROR\<close>: it never returns to \<open>INITIALIZING\<close> or
  \<open>PROCESSING\<close>, and nothing follows \<open>ERROR\<close>.
\<close>

theorem stats_accumulate_across_attempts:
  "\<exists>Ws. writes (trace (snd (generate_code_with_explanation c cfg w g))) =
           writes (trace g) @ new_StreamStats (clock_start w) # concat Ws
       \<and> created (trace (snd (generate_code_with_explanation c cfg w g))) =
           created (trace g) @ [new_StreamStats (clock_start w)]
       \<and> length (requests (trace (snd (generate_code_with_explanation c cfg w g)))) =
           length (requests (trace g)) + length Ws
       \<and> successively accumulates (new_StreamStats (clock_start w) # concat Ws)
       \<and> list_all attempt_block Ws
       \<and> list_all (\<lambda>W. status (last W) = ERROR) (butlast Ws)
       \<and> self_stats (snd (generate_code_with_explanation c cfg w g)) =
           last (new_StreamStats (clock_start w) # concat Ws)"
proof -
  define g0 where "g0 = assign_stats (new_StreamStats (clock_start w)) g"
  obtain r g' where run: "attempts c cfg (attempt_envs w) 0 g0 = (r, g')"
    by (cases "attempts c cfg (attempt_envs w) 0 g0") auto
  then have g': "snd (generate_code_with_explanation c cfg w g) = g'"
    by (simp add: generate_code_with_explanation_def g0_def)
  from attempts_blocks [OF run] obtain Ws where
    "writes (trace g') = writes (trace g0) @ concat Ws"
    "list_all attempt_block Ws"
    "list_all (\<lambda>W. status (last W) = ERROR) (butlast Ws)"
    "successively accumulates (self_stats g0 # concat Ws)"
    "self_stats g' = last (self_stats g0 # concat Ws)"
    "length (requests (trace g')) = length (requests (trace g0)) + length Ws"
    "created (trace g') = created (trace g0)"
    by blast
  then have "writes (trace g') = writes (trace g) @ new_StreamStats (clock_start w) # concat Ws
       \<and> created (trace g') = created (trace g) @ [new_StreamStats (clock_start w)]
       \<and> length (requests (trace g')) = length (requests (trace g)) + length Ws
       \<and> successively accumulates (new_StreamStats (clock_start w) # concat Ws)
       \<and> list_all attempt_block Ws
       \<and> list_all (\<lambda>W. status (last W) = ERROR) (butlast Ws)
       \<and> self_stats g' = last (new_StreamStats (clock_start w) # concat Ws)"
    by (simp add: g0_def)
  then show ?thesis unfolding g' by blast
qed

text \<open>
  The claim as it is stated fails: \<open>COMPLETED\<close> and \<open>ERROR\<close> are no alternatives. The last
  call of the progress callback (line 196) comes after the status was set to
  \<open>COMPLETED\<close> (line 192) and outside the \<open>try\<close> of \<open>handle_stream\<close>, so an exception it raises
  makes the attempt fail. Here each of two attempts goes from \<open>PROCESSING\<close> to \<open>COMPLETED\<close>
  and on to \<open>ERROR\<close>, and the second attempt starts from there.
\<close>

theorem stats_accumulate_across_attempts_counterexample:
  "fst (generate_code_with_explanation late_failing_call example_config
         \<lparr>clock_start = 0, attempt_envs = (\<lambda>k. streaming_env (stream_of [text_chunk ''a'']))\<rparr>
         idle_state) = Raised (APIError ''Failed after 2 attempts: observer failed'')
   \<and> map status (writes (trace (snd (generate_code_with_explanation late_failing_call
         example_config
         \<lparr>clock_start = 0, attempt_envs = (\<lambda>k. streaming_env (stream_of [text_chunk ''a'']))\<rparr>
         idle_state)))) =
       [INITIALIZING,
        PROCESSING, PROCESSING, PROCESSING, COMPLETED, ERROR,
        PROCESSING, PROCESSING, PROCESSING, COMPLETED, ERROR]"
  by (simp add: eval_defs late_failing_call_def)

section \<open>A call that runs alone, and two calls that overlap\<close>

lemma run_to_end_finish_attempt:
  assumes next_attempt: "\<And>g. int (Suc a) < max_retries c \<Longrightarrow>
      (case begin_attempt c cfg w (Suc a) g of (t, g1) \<Rightarrow> run_to_end c cfg w t g1) =
        attempts c cfg (attempt_envs w) (Suc a) g"
  shows "(case finish_attempt c (attempt_envs w a) a r of (t, g1) \<Rightarrow> run_to_end c cfg w t g1) =
     (case (case after_try c (attempt_envs w a) a r of
              (Some out, g2) \<Rightarrow> (Some out, g2)
            | (None, g2) \<Rightarrow>
                if backoff_cancelled (attempt_envs w a) then (Some (Raised CancelledError), g2)
                else (None, g2)) of
        (Some out, g1) \<Rightarrow> (out, g1)
      | (None, g1) \<Rightarrow> attempts c cfg (attempt_envs w) (Suc a) g1)"
proof -
  obtain ro g2 where at: "after_try c (attempt_envs w a) a r = (ro, g2)"
    by (cases "after_try c (attempt_envs w a) a r") auto
  show ?thesis
  proof (cases ro)
    case (Some out)
    with at show ?thesis by (simp add: finish_attempt_def)
  next
    case None
    show ?thesis
    proof (cases "backoff_cancelled (attempt_envs w a)")
      case True
      with None at show ?thesis by (simp add: finish_attempt_def)
    next
      case False
      show ?thesis
      proof (cases "int (Suc a) < max_retries c")
        case True
        with False None at next_attempt [OF True, of g2] show ?thesis
          by (simp add: finish_attempt_def)
      next
        case last: False
        then have "attempts c cfg (attempt_envs w) (Suc a) g2 = (Returned None, g2)"
          by (simp add: attempts.simps)
        with last False None at show ?thesis by (simp add: finish_attempt_def)
      qed
    qed
  qed
qed

lemma run_to_end_begin_attempt:
  assumes "int a < max_retries c"
  shows "(case begin_attempt c cfg w a g of (t, g1) \<Rightarrow> run_to_end c cfg w t g1) =
     attempts c cfg (attempt_envs w) a g"
  using assms
proof (induction "nat (max_retries c - int a)" arbitrary: a g)
  case 0
  then show ?case by simp
next
  case (Suc n)
  have next_attempt: "\<And>g. int (Suc a) < max_retries c \<Longrightarrow>
      (case begin_attempt c cfg w (Suc a) g of (t, g1) \<Rightarrow> run_to_end c cfg w t g1) =
        attempts c cfg (attempt_envs w) (Suc a) g"
  proof -
    fix g assume lt: "int (Suc a) < max_retries c"
    from Suc.hyps(2) have "n = nat (max_retries c - int (Suc a))" by simp
    from Suc.hyps(1) [OF this lt] show "(case begin_attempt c cfg w (Suc a) g of
        (t, g1) \<Rightarrow> run_to_end c cfg w t g1) = attempts c cfg (attempt_envs w) (Suc a) g" .
  qed
  note fin = run_to_end_finish_attempt [of a c cfg w, OF next_attempt]
  obtain r1 g1 where ty: "attempt_to_yield c cfg (attempt_envs w a) g = (r1, g1)"
    by (cases "attempt_to_yield c cfg (attempt_envs w a) g") auto
  show ?case
  proof (cases r1)
    case (Inl e)
    with ty have "attempt_try c cfg (attempt_envs w a) g = (Inl e, g1)"
      by (simp add: attempt_try_def)
    with Inl ty Suc.prems fin [of "(Inl e, g1)"] show ?thesis
      by (simp add: begin_attempt_def attempts.simps [of c cfg "attempt_envs w" a g]
          attempt_step_def)
  next
    case (Inr full)
    with ty have "attempt_try c cfg (attempt_envs w a) g =
        handle_stream_from_yield c (yield_cancelled (attempt_envs w a)) full g1"
      by (simp add: attempt_try_def)
    with Inr ty Suc.prems
      fin [of "handle_stream_from_yield c (yield_cancelled (attempt_envs w a)) full g1"]
    show ?thesis
      by (simp add: begin_attempt_def attempts.simps [of c cfg "attempt_envs w" a g]
          attempt_step_def)
  qed
qed

text \<open>
  A call that is started and resumed until it ends, with no other call in between, is
  \<open>generate_code_with_explanation\<close>.
\<close>

lemma run_to_end_start:
  "(case start c cfg w g of (t, g1) \<Rightarrow> run_to_end c cfg w t g1) =
     generate_code_with_explanation c cfg w g"
proof (cases "0 < max_retries c")
  case True
  then have "int 0 < max_retries c" by simp
  from run_to_end_begin_attempt [OF this] True show ?thesis
    by (simp add: start_def generate_code_with_explanation_def Let_def)
next
  case False
  then show ?thesis
    by (simp add: start_def generate_code_with_explanation_def attempts.simps Let_def)
qed

text \<open>A call does not read the statistics that an earlier call has left.\<close>

lemma start_ignores_old_stats: "start c cfg w (g\<lparr>self_stats := s\<rparr>) = start c cfg w g"
  by (simp add: start_def assign_stats_def)

text \<open>
  Claim C9 fails on the code. Each call creates a \<open>StreamStats\<close> of its own, but binds it to
  the attribute \<open>self.stats\<close> of the generator and reads that attribute again at every
  access. When a second call starts on the same generator while the first sleeps at
  line 177, the first call sets the status on the object of the second call and
  returns it: alone it returns two chunks and three tokens, here it returns its own
  text with the one chunk, the one token and the start time of the other call. The
  second call then returns the same statistics.
\<close>

theorem overlapping_calls_share_stats:
  "fst first_started = AtYield 0 ''a b c''
   \<and> self_stats (snd first_started) =
       \<lparr>start_time = 0, chunks_processed = 2, total_tokens = 3, status = PROCESSING\<rparr>
   \<and> fst second_started = AtYield 0 ''x''
   \<and> fst first_resumed =
       Done (Returned (Some \<lparr>res_text = ''a b c'',
                              res_stats = \<lparr>start_time = 5, chunks_processed = 1,
                                            total_tokens = 1, status = COMPLETED\<rparr>,
                              res_completion_time = 4\<rparr>))
   \<and> fst second_resumed =
       Done (Returned (Some \<lparr>res_text = ''x'',
                              res_stats = \<lparr>start_time = 5, chunks_processed = 1,
                                            total_tokens = 1, status = COMPLETED\<rparr>,
                              res_completion_time = 5\<rparr>))
   \<and> fst (generate_code_with_explanation first_call example_config first_world idle_state) =
       Returned (Some \<lparr>res_text = ''a b c'',
                        res_stats = \<lparr>start_time = 0, chunks_processed = 2,
                                      total_tokens = 3, status = COMPLETED\<rparr>,
                        res_completion_time = 9\<rparr>)"
  by (simp add: first_resumed_def second_resumed_def second_started_def first_started_def
      first_call_def second_call_def start_def begin_attempt_def finish_attempt_def
      first_world_def second_world_def eval_defs)

end
